theory Spec2Isabelle
  imports Main "HOL-Library.Sublist"
begin

section \<open>State store: \<open>src/src/csv_manager.py\<close>\<close>

text \<open>
  The tracking file is a CSV whose header is \<open>CSV_HEADERS\<close>. A row read back by
  \<open>csv.DictReader\<close> is a dictionary with exactly these six keys, every value a
  string (a line with fewer or more fields than the header is outside the model); it is
  modelled as a record of six strings. \<open>status\<close> and
  \<open>retry_count\<close> stay strings, as in the file: the code compares the first with
  the three literals and converts the second with \<open>int\<close> only when it increments it.
\<close>

definition STATUS_PENDING :: string where
  "STATUS_PENDING = ''PENDING''"

definition STATUS_SUCCESS :: string where
  "STATUS_SUCCESS = ''SUCCESS''"

definition STATUS_FAILED :: string where
  "STATUS_FAILED = ''FAILED''"

record row =
  url :: string
  status :: string
  lastmod :: string
  created_at :: string
  updated_at :: string
  retry_count :: string

type_synonym table = "row list"

text \<open>
  The durable state behind one \<open>csv_path\<close>: the file's content (\<open>None\<close> when the
  path does not exist) and the number of times \<open>write_csv\<close> has replaced it, so
  that "no save happened" and "the same table was saved again" are different states.
  The \<open>except\<close> handlers of \<open>read_csv\<close> and \<open>write_csv\<close> answer faults of the
  operating system or of the CSV parser; a store value has no such fault, so the model
  has no branch for them.
\<close>

record store =
  content :: "table option"
  writes :: nat

definition read_csv :: "store \<Rightarrow> table" where
  "read_csv s = (case content s of None \<Rightarrow> [] | Some data \<Rightarrow> data)"

definition write_csv :: "store \<Rightarrow> table \<Rightarrow> bool \<times> store" where
  "write_csv s data = (True, s\<lparr>content := Some data, writes := Suc (writes s)\<rparr>)"

subsection \<open>\<open>get_statistics\<close>\<close>

record stats =
  total :: nat
  pending :: nat
  success :: nat
  failed :: nat

fun count_row :: "stats \<Rightarrow> row \<Rightarrow> stats" where
  "count_row st r =
     (if status r = STATUS_PENDING then st\<lparr>pending := pending st + 1\<rparr>
      else if status r = STATUS_SUCCESS then st\<lparr>success := success st + 1\<rparr>
      else if status r = STATUS_FAILED then st\<lparr>failed := failed st + 1\<rparr>
      else st)"

definition get_statistics :: "store \<Rightarrow> stats" where
  "get_statistics s =
     (let data = read_csv s
      in foldl count_row \<lparr>total = length data, pending = 0, success = 0, failed = 0\<rparr> data)"

definition enum_status :: "string \<Rightarrow> bool" where
  "enum_status x \<longleftrightarrow> x = STATUS_PENDING \<or> x = STATUS_SUCCESS \<or> x = STATUS_FAILED"

subsection \<open>\<open>get_pending_urls\<close>\<close>

text \<open>
  \<open>pending[:limit]\<close> with a Python integer: a negative stop counts from the end of
  the list and is clamped at its start.
\<close>

definition py_slice_to :: "'a list \<Rightarrow> int \<Rightarrow> 'a list" where
  "py_slice_to xs n =
     (if 0 \<le> n then take (nat n) xs else take (nat (int (length xs) + n)) xs)"

definition get_pending_urls :: "store \<Rightarrow> int option \<Rightarrow> table" where
  "get_pending_urls s limit =
     (let data = read_csv s;
          pending_rows = filter (\<lambda>r. status r = STATUS_PENDING) data
      in case limit of None \<Rightarrow> pending_rows | Some n \<Rightarrow> py_slice_to pending_rows n)"

subsection \<open>\<open>int\<close> and \<open>str\<close> on decimal numerals\<close>

text \<open>
  \<open>int(s)\<close> for a string of ASCII characters: tab, line feed, vertical tab, form
  feed, carriage return and space are stripped at both ends, one sign is allowed, then
  decimal digits follow, single underscores allowed between two digits. Anything else
  raises \<open>ValueError\<close> (\<open>None\<close> here). Where \<open>py_int\<close> gives \<open>Some n\<close>,
  \<open>int\<close> gives \<open>n\<close>, as long as the string is within the interpreter's limit on
  the length of a numeral (4300 digits). \<open>None\<close> stands for \<open>ValueError\<close> on ASCII
  input only: \<open>int\<close> also reads decimal digits and spaces outside ASCII, which
  \<open>py_int\<close> refuses. Statements about \<open>int\<close> are therefore made only where
  \<open>py_int\<close> gives \<open>Some n\<close> on a string shorter than 4300 characters, or on a
  concrete ASCII string.
\<close>

definition is_space :: "char \<Rightarrow> bool" where
  "is_space c \<longleftrightarrow>
     c \<in> set [CHR 0x09, CHR 0x0A, CHR 0x0B, CHR 0x0C, CHR 0x0D, CHR 0x20]"

definition digit_val :: "char \<Rightarrow> nat option" where
  "digit_val c =
     (let k = (of_char c :: nat) in if 48 \<le> k \<and> k \<le> 57 then Some (k - 48) else None)"

fun py_digits :: "nat \<Rightarrow> bool \<Rightarrow> string \<Rightarrow> nat option" where
  "py_digits acc after_digit [] = (if after_digit then Some acc else None)"
| "py_digits acc after_digit (c # cs) =
     (if c = CHR ''_'' then (if after_digit then py_digits acc False cs else None)
      else case digit_val c of
             None \<Rightarrow> None
           | Some v \<Rightarrow> py_digits (10 * acc + v) True cs)"

definition py_strip :: "string \<Rightarrow> string" where
  "py_strip s = rev (dropWhile is_space (rev (dropWhile is_space s)))"

definition py_int :: "string \<Rightarrow> int option" where
  "py_int s =
     (case py_strip s of
        [] \<Rightarrow> None
      | c # cs \<Rightarrow>
          if c = CHR ''-'' then map_option (\<lambda>n. - int n) (py_digits 0 False cs)
          else if c = CHR ''+'' then map_option int (py_digits 0 False cs)
          else map_option int (py_digits 0 False (c # cs)))"

definition digit_char :: "nat \<Rightarrow> char" where
  "digit_char d = char_of (48 + d)"

fun nat_digits :: "nat \<Rightarrow> string" where
  "nat_digits n =
     (if n < 10 then [digit_char n] else nat_digits (n div 10) @ [digit_char (n mod 10)])"

declare nat_digits.simps [simp del]

definition py_str :: "int \<Rightarrow> string" where
  "py_str i = (if i < 0 then CHR ''-'' # nat_digits (nat (- i)) else nat_digits (nat i))"

subsection \<open>\<open>update_url_status\<close>\<close>

datatype py_error = ValueError

text \<open>
  The \<open>for\<close> loop with its \<open>break\<close>: the first row whose url matches is rewritten
  and the scan stops. \<open>None\<close> is \<open>updated = False\<close> after the loop. \<open>now\<close> is
  the value of \<open>datetime.now().isoformat()\<close>. \<open>int(row.get('retry_count', 0))\<close>
  raises on a field that is no numeral; the exception leaves the function before
  \<open>write_csv\<close>.
\<close>

fun update_first :: "string \<Rightarrow> string \<Rightarrow> string \<Rightarrow> bool \<Rightarrow> table \<Rightarrow> py_error + table option" where
  "update_first now u st increment_retry [] = Inr None"
| "update_first now u st increment_retry (r # rs) =
     (if url r = u then
        (let r1 = r\<lparr>status := st, updated_at := now\<rparr>
         in if increment_retry then
              (case py_int (retry_count r1) of
                 None \<Rightarrow> Inl ValueError
               | Some current_retry \<Rightarrow>
                   Inr (Some (r1\<lparr>retry_count := py_str (current_retry + 1)\<rparr> # rs)))
            else Inr (Some (r1 # rs)))
      else (case update_first now u st increment_retry rs of
              Inl e \<Rightarrow> Inl e
            | Inr None \<Rightarrow> Inr None
            | Inr (Some rs') \<Rightarrow> Inr (Some (r # rs'))))"

definition update_url_status ::
  "string \<Rightarrow> store \<Rightarrow> string \<Rightarrow> string \<Rightarrow> bool \<Rightarrow> (py_error + bool) \<times> store" where
  "update_url_status now s u st increment_retry =
     (case update_first now u st increment_retry (read_csv s) of
        Inl e \<Rightarrow> (Inl e, s)
      | Inr None \<Rightarrow> (Inr False, s)
      | Inr (Some data) \<Rightarrow> (case write_csv s data of (ok, s') \<Rightarrow> (Inr ok, s')))"

subsection \<open>\<open>add_urls_batch\<close>\<close>

text \<open>
  A candidate is a dictionary read with \<open>url_info.get('loc', '')\<close> and
  \<open>url_info.get('lastmod', '')\<close>: a missing key and an empty string are the same
  to the code, so a candidate is the pair of the two strings.
\<close>

record url_info =
  loc :: string
  info_lastmod :: string

definition new_row :: "string \<Rightarrow> string \<Rightarrow> string \<Rightarrow> row" where
  "new_row now u lm =
     \<lparr>url = u, status = STATUS_PENDING, lastmod = lm, created_at = now, updated_at = now,
      retry_count = ''0''\<rparr>"

fun add_candidate :: "string \<Rightarrow> (table \<times> string set \<times> nat) \<Rightarrow> url_info \<Rightarrow> (table \<times> string set \<times> nat)" where
  "add_candidate now (data, existing_urls, added_count) c =
     (if loc c = [] \<or> loc c \<in> existing_urls then (data, existing_urls, added_count)
      else (data @ [new_row now (loc c) (info_lastmod c)], insert (loc c) existing_urls,
            added_count + 1))"

definition add_urls_batch :: "string \<Rightarrow> store \<Rightarrow> url_info list \<Rightarrow> nat \<times> store" where
  "add_urls_batch now s urls =
     (let data = read_csv s;
          existing_urls = set (map url data);
          final = foldl (add_candidate now) (data, existing_urls, 0) urls;
          added_count = snd (snd final)
      in if added_count > 0 then (added_count, snd (write_csv s (fst final)))
         else (added_count, s))"

section \<open>Submission engine: \<open>src/src/indexing.py\<close>\<close>

text \<open>
  A Python \<open>dict\<close> keeps its keys in insertion order; assigning to a key that exists
  replaces the value in place.
\<close>

fun dict_set :: "('k \<times> 'v) list \<Rightarrow> 'k \<Rightarrow> 'v \<Rightarrow> ('k \<times> 'v) list" where
  "dict_set [] k v = [(k, v)]"
| "dict_set ((k', v') # kvs) k v =
     (if k' = k then (k, v) # kvs else (k', v') # dict_set kvs k v)"

subsection \<open>\<open>_execute_batch_request\<close>\<close>

text \<open>
  What the transport hands to \<open>batch_callback\<close> for one request: no exception, or an
  exception. Of an \<open>HttpError\<close> the handler reads the body (\<open>NotJson\<close> when decoding,
  parsing or a \<open>.get\<close> raises; otherwise the \<open>error.message\<close> entry, a string, if
  there is one),
  \<open>resp.status\<close> and \<open>str(exception)\<close>; of any other exception only
  \<open>str(exception)\<close>.
\<close>

datatype http_body = NotJson | Json "string option"

datatype exn = HttpError http_body int string | OtherError string

definition prefix_403 :: string where
  "prefix_403 = [CHR 0xEA, CHR 0xB6, CHR 0x8C, CHR 0xED, CHR 0x95, CHR 0x9C, CHR 0x20,
     CHR 0xEC, CHR 0x97, CHR 0x86, CHR 0xEC, CHR 0x9D, CHR 0x8C] @ '' (403): ''"

definition prefix_429 :: string where
  "prefix_429 = [CHR 0xED, CHR 0x95, CHR 0xA0, CHR 0xEB, CHR 0x8B, CHR 0xB9, CHR 0xEB,
     CHR 0x9F, CHR 0x89, CHR 0x20, CHR 0xEC, CHR 0xB4, CHR 0x88, CHR 0xEA, CHR 0xB3,
     CHR 0xBC] @ '' (429): ''"

definition prefix_400 :: string where
  "prefix_400 = [CHR 0xEC, CHR 0x9E, CHR 0x98, CHR 0xEB, CHR 0xAA, CHR 0xBB, CHR 0xEB,
     CHR 0x90, CHR 0x9C, CHR 0x20, CHR 0xEC, CHR 0x9A, CHR 0x94, CHR 0xEC, CHR 0xB2,
     CHR 0xAD] @ '' (400): ''"

fun error_message :: "exn \<Rightarrow> string" where
  "error_message (HttpError NotJson st text) = text"
| "error_message (HttpError (Json m) st text) =
     (let msg = (case m of None \<Rightarrow> text | Some t \<Rightarrow> t)
      in if st = 403 then prefix_403 @ msg
         else if st = 429 then prefix_429 @ msg
         else if st = 400 then prefix_400 @ msg
         else msg)"
| "error_message (OtherError text) = text"

type_synonym batch_results = "(string \<times> bool \<times> string option) list"

definition batch_callback :: "batch_results \<Rightarrow> string \<Rightarrow> exn option \<Rightarrow> batch_results" where
  "batch_callback results request_id exception =
     (case exception of
        Some e \<Rightarrow> dict_set results request_id (False, Some (error_message e))
      | None \<Rightarrow> dict_set results request_id (True, None))"

text \<open>
  The service object is the outside world. \<open>service k urls u\<close> is what the transport
  reports for the request of url \<open>u\<close> when the \<open>k\<close>-th batch of one
  \<open>submit_urls\<close> call carries \<open>urls\<close>; it may depend on the round and on the whole
  batch. \<open>batch.execute()\<close> runs the handler once for every request added, in the
  order of addition, and returns. This describes a batch that is carried out. A
  \<open>batch.add\<close> that refuses a url added before and a \<open>batch.execute()\<close> that raises
  end \<open>submit_urls\<close> with that exception; they are described by
  \<open>execute_batch_request_raising\<close> below, which gives the results of
  \<open>execute_batch_request\<close> whenever the batch is carried out.
\<close>

type_synonym service = "int \<Rightarrow> string list \<Rightarrow> string \<Rightarrow> exn option"

definition execute_batch_request :: "service \<Rightarrow> int \<Rightarrow> string list \<Rightarrow> batch_results" where
  "execute_batch_request service k urls =
     foldl (\<lambda>results u. batch_callback results u (service k urls u)) [] urls"

subsection \<open>\<open>submit_urls\<close>\<close>

text \<open>
  Everything \<open>submit_urls\<close> does to the outside is recorded in order: the batch
  request of a round (attempt number, urls sent, results returned), a call of
  \<open>callback\<close> with its four arguments, a \<open>time.sleep(retry_delay)\<close>. The delay
  is a float that the code only hands to \<open>time.sleep\<close>; it is a value of an
  arbitrary type here, and the sleep returns (a sleep that raises is the subject of
  \<open>submit_loop_raising\<close> below).
\<close>

datatype 'd event =
    Batch int "string list" batch_results
  | Callback string bool "string option" int
  | Sleep 'd

type_synonym final_results = "(string \<times> bool \<times> string option \<times> int) list"

text \<open>
  The body of \<open>for url, (success, error) in batch_results.items()\<close>. \<open>callback\<close>
  says whether a callback was passed (\<open>if callback:\<close>); a callback that is passed is
  taken to return (one that raises is the subject of \<open>handle_results_raising\<close> below).
\<close>

fun handle_result ::
  "int \<Rightarrow> bool \<Rightarrow> int \<Rightarrow> (final_results \<times> string list \<times> 'd event list)
     \<Rightarrow> (string \<times> bool \<times> string option)
     \<Rightarrow> (final_results \<times> string list \<times> 'd event list)" where
  "handle_result max_retry callback attempt (final_results, next_retry_urls, calls) (u, ok, err) =
     (if ok then
        (dict_set final_results u (True, None, attempt), next_retry_urls,
         calls @ (if callback then [Callback u True None attempt] else []))
      else if attempt < max_retry then
        (final_results, next_retry_urls @ [u], calls)
      else
        (dict_set final_results u (False, err, attempt), next_retry_urls,
         calls @ (if callback then [Callback u False err attempt] else [])))"

function submit_loop ::
  "service \<Rightarrow> int \<Rightarrow> 'd \<Rightarrow> bool \<Rightarrow> final_results \<Rightarrow> string list \<Rightarrow> int
     \<Rightarrow> final_results \<times> 'd event list" where
  "submit_loop service max_retry retry_delay callback final_results urls_to_retry attempt =
     (if urls_to_retry \<noteq> [] \<and> attempt < max_retry then
        (let batch_results = execute_batch_request service (attempt + 1) urls_to_retry;
             round = foldl (handle_result max_retry callback (attempt + 1))
                       (final_results, [], []) batch_results;
             next_retry_urls = fst (snd round);
             pause = (if next_retry_urls \<noteq> [] \<and> attempt + 1 < max_retry
                      then [Sleep retry_delay] else []);
             rest = submit_loop service max_retry retry_delay callback (fst round)
                      next_retry_urls (attempt + 1)
         in (fst rest,
             Batch (attempt + 1) urls_to_retry batch_results # snd (snd round) @ pause @ snd rest))
      else (final_results, []))"
  by pat_completeness auto

termination
  by (relation "measure (\<lambda>(service, max_retry, retry_delay, callback, final_results,
        urls_to_retry, attempt). nat (max_retry - attempt))") auto

declare submit_loop.simps [simp del]

text \<open>
  The two \<open>ValueError\<close>s raised before the loop carry different messages: the list is
  empty, the list has more than 100 urls.
\<close>

datatype submit_error = ValueError_empty | ValueError_over_100

definition submit_urls ::
  "service \<Rightarrow> string list \<Rightarrow> int \<Rightarrow> 'd \<Rightarrow> bool
     \<Rightarrow> (submit_error + final_results) \<times> 'd event list" where
  "submit_urls service urls max_retry retry_delay callback =
     (if urls = [] then (Inl ValueError_empty, [])
      else if length urls > 100 then (Inl ValueError_over_100, [])
      else (case submit_loop service max_retry retry_delay callback [] urls 0 of
              (final_results, evs) \<Rightarrow> (Inr final_results, evs)))"

subsection \<open>\<open>submit_urls\<close> when a call raises\<close>

text \<open>
  \<open>submit_urls\<close> has no \<open>try\<close>, and four of the calls it makes can raise instead of
  returning. Each then ends \<open>submit_urls\<close> at once: no dictionary is returned, the
  effects made so far stay, and nothing more is done for the urls that are still open.
  \<^item> \<open>batch.add(..., request_id=url)\<close> raises \<open>KeyError\<close> when the batch already holds a
    request with that id, so when a url occurs twice in the list sent. (The other exception
    of \<open>batch.add\<close>, for a batch of more than 1000 requests, is out of reach behind the
    limit of 100.)
  \<^item> \<open>batch.execute()\<close> raises when the batch as a whole fails: no connection, an error
    response to the batch request itself. Then the handler has run for no request.
  \<^item> The callback passed by the caller may raise; the one of \<open>main.py\<close> calls
    \<open>update_url_status\<close>.
  \<^item> \<open>time.sleep(retry_delay)\<close> raises on a negative delay, and \<open>REQUEST_DELAY\<close> is read
    from the configuration with no check of its sign.

  Which of them raise is a second part of the outside world, next to the service: whether
  \<open>batch.execute()\<close> raises for the batch of round \<open>k\<close>, whether the callback raises
  on given arguments, whether \<open>time.sleep\<close> raises on a given delay.
\<close>

record 'd faults =
  execute_raises :: "int \<Rightarrow> string list \<Rightarrow> bool"
  callback_raises :: "string \<Rightarrow> bool \<Rightarrow> string option \<Rightarrow> int \<Rightarrow> bool"
  sleep_raises :: "'d \<Rightarrow> bool"

datatype raised =
    Rejected submit_error
  | KeyError string
  | ExecuteError
  | CallbackError
  | SleepError

text \<open>
  The loop \<open>for url in urls: batch.add(..., request_id=url)\<close>, with the ids added so
  far: it stops at the first url that was added before.
\<close>

fun add_requests :: "string list \<Rightarrow> string list \<Rightarrow> raised + string list" where
  "add_requests added [] = Inr added"
| "add_requests added (u # us) =
     (if u \<in> set added then Inl (KeyError u) else add_requests (added @ [u]) us)"

text \<open>
  \<open>_execute_batch_request\<close>: the requests are added, the batch is executed, and when
  both return the results are those of \<open>execute_batch_request\<close>.
\<close>

definition execute_batch_request_raising ::
  "service \<Rightarrow> 'd faults \<Rightarrow> int \<Rightarrow> string list \<Rightarrow> raised + batch_results" where
  "execute_batch_request_raising service env k urls =
     (case add_requests [] urls of
        Inl e \<Rightarrow> Inl e
      | Inr added \<Rightarrow>
          if execute_raises env k urls then Inl ExecuteError
          else Inr (execute_batch_request service k urls))"

text \<open>
  The loop \<open>for url, (success, error) in batch_results.items()\<close>. One result is handled
  as in \<open>handle_result\<close>; the callback is called when one was passed and the result is
  a success or the attempt is the last one, with the arguments of that call, and an
  exception of it leaves the loop after the dictionary entry was written and the call
  was made.
\<close>

fun handle_results_raising ::
  "'d faults \<Rightarrow> int \<Rightarrow> bool \<Rightarrow> int \<Rightarrow> (final_results \<times> string list \<times> 'd event list)
     \<Rightarrow> batch_results \<Rightarrow> raised option \<times> (final_results \<times> string list \<times> 'd event list)" where
  "handle_results_raising env max_retry callback attempt state [] = (None, state)"
| "handle_results_raising env max_retry callback attempt state ((u, ok, err) # items) =
     (let state' = handle_result max_retry callback attempt state (u, ok, err);
          called = (callback \<and> (ok \<or> \<not> attempt < max_retry))
      in if called \<and> callback_raises env u ok (if ok then None else err) attempt
         then (Some CallbackError, state')
         else handle_results_raising env max_retry callback attempt state' items)"

text \<open>
  The \<open>while\<close> loop. The batch of a round that raises is not recorded as made (no
  result came back), a callback that raises is recorded as called, a sleep that raises
  is not recorded.
\<close>

function submit_loop_raising ::
  "service \<Rightarrow> 'd faults \<Rightarrow> int \<Rightarrow> 'd \<Rightarrow> bool \<Rightarrow> final_results \<Rightarrow> string list \<Rightarrow> int
     \<Rightarrow> (raised + final_results) \<times> 'd event list" where
  "submit_loop_raising service env max_retry retry_delay callback final_results urls_to_retry
       attempt =
     (if urls_to_retry \<noteq> [] \<and> attempt < max_retry then
        (case execute_batch_request_raising service env (attempt + 1) urls_to_retry of
           Inl e \<Rightarrow> (Inl e, [])
         | Inr batch_results \<Rightarrow>
             (case handle_results_raising env max_retry callback (attempt + 1)
                     (final_results, [], []) batch_results of
                (Some e, round) \<Rightarrow>
                  (Inl e, Batch (attempt + 1) urls_to_retry batch_results # snd (snd round))
              | (None, round) \<Rightarrow>
                  (let next_retry_urls = fst (snd round);
                       so_far = Batch (attempt + 1) urls_to_retry batch_results # snd (snd round);
                       sleeps = (next_retry_urls \<noteq> [] \<and> attempt + 1 < max_retry)
                   in if sleeps \<and> sleep_raises env retry_delay then (Inl SleepError, so_far)
                      else
                        (let rest = submit_loop_raising service env max_retry retry_delay callback
                                      (fst round) next_retry_urls (attempt + 1)
                         in (fst rest,
                             so_far @ (if sleeps then [Sleep retry_delay] else []) @ snd rest)))))
      else (Inr final_results, []))"
  by pat_completeness auto

termination
  by (relation "measure (\<lambda>(service, env, max_retry, retry_delay, callback, final_results,
        urls_to_retry, attempt). nat (max_retry - attempt))") auto

declare submit_loop_raising.simps [simp del]

definition submit_urls_raising ::
  "service \<Rightarrow> 'd faults \<Rightarrow> string list \<Rightarrow> int \<Rightarrow> 'd \<Rightarrow> bool
     \<Rightarrow> (raised + final_results) \<times> 'd event list" where
  "submit_urls_raising service env urls max_retry retry_delay callback =
     (if urls = [] then (Inl (Rejected ValueError_empty), [])
      else if length urls > 100 then (Inl (Rejected ValueError_over_100), [])
      else submit_loop_raising service env max_retry retry_delay callback [] urls 0)"

section \<open>Concrete inputs\<close>

text \<open>A small table with one status outside the three literals, two candidate
  lists, and three services: one that always succeeds, and two that fail the same
  requests with different exceptions.\<close>

definition mk_row :: "string \<Rightarrow> string \<Rightarrow> string \<Rightarrow> row" where
  "mk_row u st rc =
     \<lparr>url = u, status = st, lastmod = [], created_at = ''t0'', updated_at = ''t0'',
      retry_count = rc\<rparr>"

definition mixed_store :: store where
  "mixed_store =
     \<lparr>content = Some [mk_row ''a'' ''PENDING'' ''0'', mk_row ''b'' ''DONE'' ''0'',
                      mk_row ''c'' ''FAILED'' ''1'', mk_row ''d'' ''PENDING'' ''0''],
      writes = 0\<rparr>"


definition stale_candidates :: "url_info list" where
  "stale_candidates = [\<lparr>loc = [], info_lastmod = ''x''\<rparr>, \<lparr>loc = ''a'', info_lastmod = []\<rparr>]"

definition blank_retry_store :: store where
  "blank_retry_store = \<lparr>content = Some [mk_row ''a'' ''PENDING'' []], writes = 0\<rparr>"


definition flaky_service :: service where
  "flaky_service k us u =
     (if u = ''a'' then None
      else if k < 2 then Some (HttpError (Json (Some ''quota'')) 429 ''HttpError 429'')
      else if u = ''b'' then None
      else Some (OtherError ''boom''))"

definition flaky_service_403 :: service where
  "flaky_service_403 k us u =
     (if u = ''a'' then None
      else if k < 2 then Some (HttpError NotJson 403 ''HttpError 403'')
      else if u = ''b'' then None
      else Some (HttpError (Json None) 400 ''bad''))"





section \<open>Auxiliary notions for the proofs\<close>

subsection \<open>State store\<close>

text \<open>A decimal digit character; a row as \<open>add_urls_batch\<close> creates it from one of
  the candidates; the row that \<open>update_url_status\<close> leaves in place of a matching row.\<close>

definition is_digit :: "char \<Rightarrow> bool" where
  "is_digit c \<longleftrightarrow> (\<exists>d < 10. c = digit_char d)"

definition fresh_row :: "string \<Rightarrow> string set \<Rightarrow> url_info list \<Rightarrow> row \<Rightarrow> bool" where
  "fresh_row now E cs r \<longleftrightarrow>
     status r = STATUS_PENDING \<and> retry_count r = ''0'' \<and> url r \<noteq> [] \<and> url r \<notin> E
     \<and> created_at r = now \<and> updated_at r = now
     \<and> (\<exists>c \<in> set cs. loc c = url r \<and> info_lastmod c = lastmod r)"

definition updated_row :: "string \<Rightarrow> string \<Rightarrow> bool \<Rightarrow> row \<Rightarrow> row" where
  "updated_row now st inc r =
     r\<lparr>status := st, updated_at := now,
       retry_count := (if inc then (case py_int (retry_count r) of
                                      None \<Rightarrow> retry_count r
                                    | Some n \<Rightarrow> py_str (n + 1))
                       else retry_count r)\<rparr>"

subsection \<open>One round of \<open>submit_urls\<close> in closed form\<close>

text \<open>The entry that \<open>batch_callback\<close> stores for a request; the three components of
  the state after the \<open>for\<close> loop over one round's results: the dictionary, the next
  working set, the callbacks made.\<close>

definition outcome :: "exn option \<Rightarrow> bool \<times> string option" where
  "outcome x = (case x of None \<Rightarrow> (True, None) | Some e \<Rightarrow> (False, Some (error_message e)))"

definition failed_urls :: "batch_results \<Rightarrow> string list" where
  "failed_urls res = map fst (filter (\<lambda>x. \<not> fst (snd x)) res)"

definition next_urls :: "int \<Rightarrow> int \<Rightarrow> batch_results \<Rightarrow> string list" where
  "next_urls max_retry attempt res = (if attempt < max_retry then failed_urls res else [])"

fun store_result :: "int \<Rightarrow> int \<Rightarrow> final_results \<Rightarrow> (string \<times> bool \<times> string option) \<Rightarrow> final_results" where
  "store_result max_retry attempt fr (u, ok, err) =
     (if ok then dict_set fr u (True, None, attempt)
      else if attempt < max_retry then fr
      else dict_set fr u (False, err, attempt))"

fun result_calls :: "int \<Rightarrow> int \<Rightarrow> (string \<times> bool \<times> string option) \<Rightarrow> 'd event list" where
  "result_calls max_retry attempt (u, ok, err) =
     (if ok then [Callback u True None attempt]
      else if attempt < max_retry then []
      else [Callback u False err attempt])"

definition round_calls :: "int \<Rightarrow> bool \<Rightarrow> int \<Rightarrow> batch_results \<Rightarrow> 'd event list" where
  "round_calls max_retry callback attempt res =
     (if callback then concat (map (result_calls max_retry attempt) res) else [])"

subsection \<open>Reading the record of effects\<close>

text \<open>The callbacks made for one url; the rounds, as attempt number and urls sent.\<close>

fun is_callback :: "'d event \<Rightarrow> bool" where
  "is_callback (Callback u ok err k) = True"
| "is_callback (Batch k us res) = False"
| "is_callback (Sleep x) = False"



fun round_of :: "'d event \<Rightarrow> (int \<times> string list) option" where
  "round_of (Batch k us res) = Some (k, us)"
| "round_of (Callback u ok err k) = None"
| "round_of (Sleep x) = None"

definition rounds_of :: "'d event list \<Rightarrow> (int \<times> string list) list" where
  "rounds_of evs = List.map_filter round_of evs"


subsection \<open>Runs with the error messages erased\<close>

text \<open>What remains of an effect, of the returned dictionary and of a round's results
  when the error strings are dropped, and the round's bookkeeping on what remains.\<close>

fun erase_messages :: "'d event \<Rightarrow> 'd event" where
  "erase_messages (Batch k us res) = Batch k us (map (\<lambda>(u, ok, err). (u, ok, None)) res)"
| "erase_messages (Callback u ok err k) = Callback u ok None k"
| "erase_messages (Sleep x) = Sleep x"

definition verdicts :: "final_results \<Rightarrow> (string \<times> bool \<times> int) list" where
  "verdicts fr = map (\<lambda>(u, ok, err, k). (u, ok, k)) fr"

definition shape :: "batch_results \<Rightarrow> (string \<times> bool) list" where
  "shape res = map (\<lambda>(u, ok, err). (u, ok)) res"

fun store_verdict :: "int \<Rightarrow> int \<Rightarrow> (string \<times> bool \<times> int) list \<Rightarrow> (string \<times> bool)
    \<Rightarrow> (string \<times> bool \<times> int) list" where
  "store_verdict max_retry attempt v (u, ok) =
     (if ok then dict_set v u (True, attempt)
      else if attempt < max_retry then v
      else dict_set v u (False, attempt))"

fun verdict_calls :: "int \<Rightarrow> int \<Rightarrow> (string \<times> bool) \<Rightarrow> 'd event list" where
  "verdict_calls max_retry attempt (u, ok) =
     (if ok then [Callback u True None attempt]
      else if attempt < max_retry then []
      else [Callback u False None attempt])"

section \<open>Statistics\<close>

lemma status_literals_distinct:
  "STATUS_PENDING \<noteq> STATUS_SUCCESS" "STATUS_PENDING \<noteq> STATUS_FAILED"
  "STATUS_SUCCESS \<noteq> STATUS_FAILED"
  by (simp_all add: STATUS_PENDING_def STATUS_SUCCESS_def STATUS_FAILED_def)

lemma foldl_count_row_total:
  "total (foldl count_row st data) = total st"
  by (induction data arbitrary: st) simp_all

lemma foldl_count_row_pending:
  "pending (foldl count_row st data) =
     pending st + length (filter (\<lambda>r. status r = STATUS_PENDING) data)"
  by (induction data arbitrary: st) (simp_all add: status_literals_distinct)

lemma foldl_count_row_success:
  "success (foldl count_row st data) =
     success st + length (filter (\<lambda>r. status r = STATUS_SUCCESS) data)"
  using status_literals_distinct
  by (induction data arbitrary: st) auto

lemma foldl_count_row_failed:
  "failed (foldl count_row st data) =
     failed st + length (filter (\<lambda>r. status r = STATUS_FAILED) data)"
  using status_literals_distinct
  by (induction data arbitrary: st) auto

lemma three_way_count:
  "length (filter (\<lambda>r. status r = STATUS_PENDING) data)
     + length (filter (\<lambda>r. status r = STATUS_SUCCESS) data)
     + length (filter (\<lambda>r. status r = STATUS_FAILED) data)
   = length (filter (\<lambda>r. enum_status (status r)) data)"
  using status_literals_distinct
  by (induction data) (auto simp: enum_status_def)

lemma filter_length_eq_iff:
  "length (filter P xs) = length xs \<longleftrightarrow> (\<forall>x \<in> set xs. P x)"
proof -
  have "length (filter P xs) + length (filter (\<lambda>x. \<not> P x) xs) = length xs"
    by (rule sum_length_filter_compl)
  then have "length (filter P xs) = length xs \<longleftrightarrow> filter (\<lambda>x. \<not> P x) xs = []"
    by auto
  then show ?thesis by (simp add: filter_empty_conv)
qed

text \<open>
  C9. \<open>total\<close> is the number of records. \<open>pending\<close>, \<open>success\<close> and
  \<open>failed\<close> count the records whose status is exactly \<open>PENDING\<close>,
  \<open>SUCCESS\<close>, \<open>FAILED\<close>; a record with any other status is in \<open>total\<close> and
  in no category. Hence \<open>total \<ge> pending + success + failed\<close>, with equality
  exactly when every record's status is one of the three literals.
\<close>

theorem get_statistics_counts:
  "total (get_statistics s) = length (read_csv s)
   \<and> pending (get_statistics s) = length (filter (\<lambda>r. status r = STATUS_PENDING) (read_csv s))
   \<and> success (get_statistics s) = length (filter (\<lambda>r. status r = STATUS_SUCCESS) (read_csv s))
   \<and> failed (get_statistics s) = length (filter (\<lambda>r. status r = STATUS_FAILED) (read_csv s))
   \<and> pending (get_statistics s) + success (get_statistics s) + failed (get_statistics s)
       = length (filter (\<lambda>r. enum_status (status r)) (read_csv s))
   \<and> pending (get_statistics s) + success (get_statistics s) + failed (get_statistics s)
       \<le> total (get_statistics s)
   \<and> (pending (get_statistics s) + success (get_statistics s) + failed (get_statistics s)
         = total (get_statistics s)
       \<longleftrightarrow> (\<forall>r \<in> set (read_csv s). enum_status (status r)))"
proof -
  let ?d = "read_csv s"
  have t: "total (get_statistics s) = length ?d"
    by (simp add: get_statistics_def Let_def foldl_count_row_total)
  have p: "pending (get_statistics s) = length (filter (\<lambda>r. status r = STATUS_PENDING) ?d)"
    by (simp add: get_statistics_def Let_def foldl_count_row_pending)
  have c: "success (get_statistics s) = length (filter (\<lambda>r. status r = STATUS_SUCCESS) ?d)"
    by (simp add: get_statistics_def Let_def foldl_count_row_success)
  have f: "failed (get_statistics s) = length (filter (\<lambda>r. status r = STATUS_FAILED) ?d)"
    by (simp add: get_statistics_def Let_def foldl_count_row_failed)
  have sum: "pending (get_statistics s) + success (get_statistics s) + failed (get_statistics s)
       = length (filter (\<lambda>r. enum_status (status r)) ?d)"
    unfolding p c f by (rule three_way_count)
  have le: "length (filter (\<lambda>r. enum_status (status r)) ?d) \<le> length ?d"
    by (rule length_filter_le)
  have eq: "length (filter (\<lambda>r. enum_status (status r)) ?d) = length ?d
       \<longleftrightarrow> (\<forall>r \<in> set ?d. enum_status (status r))"
    by (rule filter_length_eq_iff)
  show ?thesis
    using t p c f sum le eq by presburger
qed

theorem get_statistics_counts_witness:
  "total (get_statistics mixed_store) = 4
   \<and> pending (get_statistics mixed_store) = 2
   \<and> success (get_statistics mixed_store) = 0
   \<and> failed (get_statistics mixed_store) = 1
   \<and> \<not> (\<forall>r \<in> set (read_csv mixed_store). enum_status (status r))"
proof -
  have d: "read_csv mixed_store =
      [mk_row ''a'' ''PENDING'' ''0'', mk_row ''b'' ''DONE'' ''0'',
       mk_row ''c'' ''FAILED'' ''1'', mk_row ''d'' ''PENDING'' ''0'']"
    by (simp add: mixed_store_def read_csv_def)
  show ?thesis
    using get_statistics_counts [of mixed_store] unfolding d
    by (simp add: mk_row_def enum_status_def STATUS_PENDING_def STATUS_SUCCESS_def
        STATUS_FAILED_def)
qed

section \<open>Pending query\<close>

lemma py_slice_to_subset: "set (py_slice_to xs n) \<subseteq> set xs"
  unfolding py_slice_to_def using set_take_subset by (cases "0 \<le> n") fastforce+

lemma get_pending_urls_unfold:
  "get_pending_urls s limit =
     (case limit of None \<Rightarrow> filter (\<lambda>r. status r = STATUS_PENDING) (read_csv s)
      | Some n \<Rightarrow> py_slice_to (filter (\<lambda>r. status r = STATUS_PENDING) (read_csv s)) n)"
  unfolding get_pending_urls_def Let_def by (rule refl)

lemma get_pending_urls_in_filter:
  "set (get_pending_urls s limit) \<subseteq> set (filter (\<lambda>r. status r = STATUS_PENDING) (read_csv s))"
proof (cases limit)
  case None
  show ?thesis unfolding get_pending_urls_unfold None by simp
next
  case (Some n)
  show ?thesis unfolding get_pending_urls_unfold Some option.case by (rule py_slice_to_subset)
qed

lemma get_pending_urls_pending:
  "\<forall>r \<in> set (get_pending_urls s limit). status r = STATUS_PENDING"
proof
  fix r assume "r \<in> set (get_pending_urls s limit)"
  with get_pending_urls_in_filter [of s limit]
  have "r \<in> set (filter (\<lambda>r. status r = STATUS_PENDING) (read_csv s))" by (rule subsetD)
  then show "status r = STATUS_PENDING" by simp
qed

lemma get_pending_urls_subseq: "subseq (get_pending_urls s limit) (read_csv s)"
proof -
  let ?p = "filter (\<lambda>r. status r = STATUS_PENDING) (read_csv s)"
  have f: "subseq ?p (read_csv s)" by (rule subseq_filter_left)
  have t: "subseq (take k ?p) ?p" for k
    by (rule prefix_imp_subseq) (rule take_is_prefix)
  have "subseq (get_pending_urls s limit) ?p"
    using t by (cases limit) (simp_all add: get_pending_urls_def py_slice_to_def Let_def)
  then show ?thesis using f by (rule subseq_order.trans)
qed

text \<open>
  C6, as the claim states it, at a negative limit: \<open>pending[:-1]\<close> drops the last
  pending row, so the table with two pending rows yields one record, which is more
  than \<open>-1\<close>.
\<close>

theorem get_pending_urls_negative_limit:
  "get_pending_urls mixed_store (Some (- 1)) = [mk_row ''a'' ''PENDING'' ''0'']
   \<and> \<not> int (length (get_pending_urls mixed_store (Some (- 1)))) \<le> - 1"
  by (simp add: get_pending_urls_def py_slice_to_def mixed_store_def read_csv_def mk_row_def
      STATUS_PENDING_def)

text \<open>
  C6, amended. For every table and every limit \<open>N\<close>, the records returned all have
  status \<open>PENDING\<close> and are a subsequence of the stored table; for every limit
  \<open>N \<ge> 0\<close> they are the first \<open>min N (number of pending)\<close> pending records in
  stored order, hence at most \<open>N\<close>.
\<close>

theorem get_pending_urls_limit:
  "(\<forall>r \<in> set (get_pending_urls s (Some N)). status r = STATUS_PENDING)
   \<and> subseq (get_pending_urls s (Some N)) (read_csv s)
   \<and> (0 \<le> N \<longrightarrow>
        get_pending_urls s (Some N)
          = take (nat N) (filter (\<lambda>r. status r = STATUS_PENDING) (read_csv s))
        \<and> int (length (get_pending_urls s (Some N))) \<le> N
        \<and> length (get_pending_urls s (Some N))
            = min (nat N) (length (filter (\<lambda>r. status r = STATUS_PENDING) (read_csv s))))"
proof -
  let ?p = "filter (\<lambda>r. status r = STATUS_PENDING) (read_csv s)"
  have p: "\<forall>r \<in> set (get_pending_urls s (Some N)). status r = STATUS_PENDING"
    by (rule get_pending_urls_pending)
  have q: "subseq (get_pending_urls s (Some N)) (read_csv s)"
    by (rule get_pending_urls_subseq)
  have e: "0 \<le> N \<longrightarrow>
        get_pending_urls s (Some N) = take (nat N) ?p
        \<and> int (length (get_pending_urls s (Some N))) \<le> N
        \<and> length (get_pending_urls s (Some N)) = min (nat N) (length ?p)"
  proof
    assume n: "0 \<le> N"
    then have eq: "get_pending_urls s (Some N) = take (nat N) ?p"
      unfolding get_pending_urls_unfold option.case py_slice_to_def by simp
    have l: "length (take (nat N) ?p) = min (nat N) (length ?p)"
      by (simp add: min.commute)
    have "int (min (nat N) (length ?p)) \<le> N"
      using n by linarith
    with eq l show "get_pending_urls s (Some N) = take (nat N) ?p
        \<and> int (length (get_pending_urls s (Some N))) \<le> N
        \<and> length (get_pending_urls s (Some N)) = min (nat N) (length ?p)"
      by (simp only:)
  qed
  from p q e show ?thesis by (intro conjI)
qed

theorem get_pending_urls_limit_witness:
  "(0::int) \<le> 1
   \<and> get_pending_urls mixed_store (Some 1) = [mk_row ''a'' ''PENDING'' ''0'']
   \<and> list_all (\<lambda>r. status r = STATUS_PENDING) (get_pending_urls mixed_store (Some 1))"
proof -
  have z: "(0::int) \<le> 1" by simp
  have "get_pending_urls mixed_store (Some 1)
      = take (nat 1) (filter (\<lambda>r. status r = STATUS_PENDING) (read_csv mixed_store))"
    using get_pending_urls_limit [of mixed_store 1] z by (elim conjE impE)
  then have ev: "get_pending_urls mixed_store (Some 1) = [mk_row ''a'' ''PENDING'' ''0'']"
    by (simp add: mixed_store_def read_csv_def mk_row_def STATUS_PENDING_def)
  have "\<forall>r \<in> set (get_pending_urls mixed_store (Some 1)). status r = STATUS_PENDING"
    using get_pending_urls_limit [of mixed_store 1] by (rule conjunct1)
  then have a: "list_all (\<lambda>r. status r = STATUS_PENDING) (get_pending_urls mixed_store (Some 1))"
    unfolding list_all_iff .
  from z ev a show ?thesis by (intro conjI)
qed

section \<open>Batch ingestion\<close>

lemma add_candidate_skip:
  "loc c = [] \<or> loc c \<in> E \<Longrightarrow> add_candidate now (data, E, k) c = (data, E, k)"
  by simp

lemma foldl_add_candidate_skip:
  "\<forall>c \<in> set cs. loc c = [] \<or> loc c \<in> E \<Longrightarrow>
     foldl (add_candidate now) (data, E, k) cs = (data, E, k)"
  by (induction cs) simp_all

lemma foldl_add_candidate_shape:
  "\<exists>added. foldl (add_candidate now) (data, E, k) cs
       = (data @ added, E \<union> set (map url added), k + length added)
     \<and> distinct (map url added)
     \<and> set (map url added) = {u. u \<noteq> [] \<and> u \<notin> E \<and> u \<in> loc ` set cs}
     \<and> (\<forall>r \<in> set added. fresh_row now E cs r)"
proof (induction cs arbitrary: data E k)
  case Nil
  show ?case by simp
next
  case (Cons c cs)
  show ?case
  proof (cases "loc c = [] \<or> loc c \<in> E")
    case True
    from Cons.IH [of data E k] obtain added where
      a: "foldl (add_candidate now) (data, E, k) cs
            = (data @ added, E \<union> set (map url added), k + length added)"
      and d: "distinct (map url added)"
      and s: "set (map url added) = {u. u \<noteq> [] \<and> u \<notin> E \<and> u \<in> loc ` set cs}"
      and f: "\<forall>r \<in> set added. fresh_row now E cs r"
      by blast
    have "foldl (add_candidate now) (data, E, k) (c # cs)
            = (data @ added, E \<union> set (map url added), k + length added)"
      using True a by simp
    moreover have "set (map url added) = {u. u \<noteq> [] \<and> u \<notin> E \<and> u \<in> loc ` set (c # cs)}"
      using True s by auto
    moreover have "\<forall>r \<in> set added. fresh_row now E (c # cs) r"
      using f by (auto simp: fresh_row_def)
    ultimately show ?thesis using d by blast
  next
    case False
    let ?r = "new_row now (loc c) (info_lastmod c)"
    let ?E = "insert (loc c) E"
    from Cons.IH [of "data @ [?r]" ?E "k + 1"] obtain added where
      a: "foldl (add_candidate now) (data @ [?r], ?E, k + 1) cs
            = ((data @ [?r]) @ added, ?E \<union> set (map url added), k + 1 + length added)"
      and d: "distinct (map url added)"
      and s: "set (map url added) = {u. u \<noteq> [] \<and> u \<notin> ?E \<and> u \<in> loc ` set cs}"
      and f: "\<forall>r \<in> set added. fresh_row now ?E cs r"
      by blast
    have u: "url ?r = loc c" by (simp add: new_row_def)
    have "foldl (add_candidate now) (data, E, k) (c # cs)
            = (data @ (?r # added), E \<union> set (map url (?r # added)), k + length (?r # added))"
      using False a u by simp
    moreover have "distinct (map url (?r # added))"
      using d s u by auto
    moreover have "set (map url (?r # added)) = {u. u \<noteq> [] \<and> u \<notin> E \<and> u \<in> loc ` set (c # cs)}"
      using False s u by auto
    moreover have "\<forall>r \<in> set (?r # added). fresh_row now E (c # cs) r"
      using f False by (auto simp: fresh_row_def new_row_def)
    ultimately show ?thesis by blast
  qed
qed

lemma add_urls_batch_skip:
  assumes "\<forall>c \<in> set S. loc c = [] \<or> loc c \<in> url ` set (read_csv s)"
  shows "add_urls_batch now s S = (0, s)"
proof -
  have "foldl (add_candidate now) (read_csv s, url ` set (read_csv s), 0) S
      = (read_csv s, url ` set (read_csv s), 0)"
    using assms by (rule foldl_add_candidate_skip)
  then show ?thesis by (simp add: add_urls_batch_def Let_def)
qed

lemma add_urls_batch_shape:
  "\<exists>added.
      fst (add_urls_batch now s S) = length added
    \<and> read_csv (snd (add_urls_batch now s S)) = read_csv s @ added
    \<and> snd (add_urls_batch now s S)
        = (if added = [] then s
           else s\<lparr>content := Some (read_csv s @ added), writes := Suc (writes s)\<rparr>)
    \<and> distinct (map url added)
    \<and> set (map url added) = {u. u \<noteq> [] \<and> u \<notin> url ` set (read_csv s) \<and> u \<in> loc ` set S}
    \<and> (\<forall>r \<in> set added. fresh_row now (url ` set (read_csv s)) S r)"
proof -
  let ?T = "read_csv s"
  from foldl_add_candidate_shape [of now ?T "url ` set ?T" 0 S] obtain added where
    a: "foldl (add_candidate now) (?T, url ` set ?T, 0) S
          = (?T @ added, url ` set ?T \<union> set (map url added), 0 + length added)"
    and d: "distinct (map url added)"
    and e: "set (map url added) = {u. u \<noteq> [] \<and> u \<notin> url ` set ?T \<and> u \<in> loc ` set S}"
    and f: "\<forall>r \<in> set added. fresh_row now (url ` set ?T) S r"
    by blast
  have r: "add_urls_batch now s S
      = (if added = [] then (0, s)
         else (length added, s\<lparr>content := Some (?T @ added), writes := Suc (writes s)\<rparr>))"
    by (simp add: add_urls_batch_def Let_def a write_csv_def)
  have "fst (add_urls_batch now s S) = length added"
    by (simp add: r)
  moreover have "read_csv (snd (add_urls_batch now s S)) = ?T @ added"
    by (simp add: r read_csv_def)
  moreover have "snd (add_urls_batch now s S)
        = (if added = [] then s
           else s\<lparr>content := Some (?T @ added), writes := Suc (writes s)\<rparr>)"
    by (simp add: r)
  ultimately show ?thesis using d e f by auto
qed



text \<open>
  C10. If every candidate has an empty url or a url already in the table, the result
  is 0 and the store is the one given: no write was made (the write counter is part
  of the store). In every case, no added row has an empty url, and the number
  returned is the number of rows added, at most the number of candidates with a
  non-empty url.
\<close>

theorem add_urls_batch_nothing_new:
  "((\<forall>c \<in> set S. loc c = [] \<or> loc c \<in> url ` set (read_csv s))
      \<longrightarrow> add_urls_batch now s S = (0, s))
   \<and> (\<forall>r \<in> set (drop (length (read_csv s)) (read_csv (snd (add_urls_batch now s S)))).
         url r \<noteq> [])
   \<and> take (length (read_csv s)) (read_csv (snd (add_urls_batch now s S))) = read_csv s
   \<and> fst (add_urls_batch now s S)
       = length (drop (length (read_csv s)) (read_csv (snd (add_urls_batch now s S))))
   \<and> fst (add_urls_batch now s S) \<le> length (filter (\<lambda>c. loc c \<noteq> []) S)"
proof -
  let ?T = "read_csv s"
  let ?s1 = "snd (add_urls_batch now s S)"
  have skip: "(\<forall>c \<in> set S. loc c = [] \<or> loc c \<in> url ` set ?T)
      \<longrightarrow> add_urls_batch now s S = (0, s)"
  proof
    assume "\<forall>c \<in> set S. loc c = [] \<or> loc c \<in> url ` set ?T"
    then show "add_urls_batch now s S = (0, s)"
      by (rule add_urls_batch_skip)
  qed
  from add_urls_batch_shape [of now s S] obtain added where
    n: "fst (add_urls_batch now s S) = length added"
    and t: "read_csv ?s1 = ?T @ added"
    and d: "distinct (map url added)"
    and e: "set (map url added) = {u. u \<noteq> [] \<and> u \<notin> url ` set ?T \<and> u \<in> loc ` set S}"
    and f: "\<forall>r \<in> set added. fresh_row now (url ` set ?T) S r"
    by blast
  have dr: "drop (length ?T) (read_csv ?s1) = added" by (simp add: t)
  have ne: "\<forall>r \<in> set added. url r \<noteq> []"
    using f by (simp add: fresh_row_def)
  have "length added = card (set (map url added))"
    using distinct_card [OF d] by simp
  also have "\<dots> \<le> card (loc ` set (filter (\<lambda>c. loc c \<noteq> []) S))"
    unfolding e by (intro card_mono) auto
  also have "\<dots> \<le> length (filter (\<lambda>c. loc c \<noteq> []) S)"
    by (metis card_image_le card_length le_trans List.finite_set)
  finally have le: "length added \<le> length (filter (\<lambda>c. loc c \<noteq> []) S)" .
  show ?thesis
    unfolding dr using skip n t ne le by simp
qed

theorem add_urls_batch_nothing_new_witness:
  "list_all (\<lambda>c. loc c = [] \<or> loc c \<in> url ` set (read_csv mixed_store)) stale_candidates
   \<and> add_urls_batch ''t1'' mixed_store stale_candidates = (0, mixed_store)"
proof -
  have h: "\<forall>c \<in> set stale_candidates. loc c = [] \<or> loc c \<in> url ` set (read_csv mixed_store)"
    by (simp add: stale_candidates_def read_csv_def mixed_store_def mk_row_def)
  from add_urls_batch_nothing_new [of stale_candidates mixed_store "''t1''"]
  have "(\<forall>c \<in> set stale_candidates. loc c = [] \<or> loc c \<in> url ` set (read_csv mixed_store))
      \<longrightarrow> add_urls_batch ''t1'' mixed_store stale_candidates = (0, mixed_store)"
    by (rule conjunct1)
  from this h have r: "add_urls_batch ''t1'' mixed_store stale_candidates = (0, mixed_store)"
    by (rule mp)
  from h have l: "list_all (\<lambda>c. loc c = [] \<or> loc c \<in> url ` set (read_csv mixed_store))
      stale_candidates"
    unfolding list_all_iff .
  from l r show ?thesis by (intro conjI)
qed

section \<open>Status update\<close>

lemma digit_val_digit_char: "d < 10 \<Longrightarrow> digit_val (digit_char d) = Some d"
  by (simp add: digit_val_def digit_char_def Let_def)

lemma of_char_digit_char: "d < 10 \<Longrightarrow> (of_char (digit_char d) :: nat) = 48 + d"
  by (simp add: digit_char_def)

lemma digit_char_not_special:
  assumes "d < 10"
  shows "digit_char d \<noteq> CHR ''_''" "digit_char d \<noteq> CHR ''-''" "digit_char d \<noteq> CHR ''+''"
    "\<not> is_space (digit_char d)"
proof -
  have k: "(of_char (digit_char d) :: nat) = 48 + d"
    using assms by (rule of_char_digit_char)
  show "digit_char d \<noteq> CHR ''_''"
  proof
    assume "digit_char d = CHR ''_''"
    then have "(of_char (digit_char d) :: nat) = of_char CHR ''_''" by simp
    with k assms show False by simp
  qed
  show "digit_char d \<noteq> CHR ''-''"
  proof
    assume "digit_char d = CHR ''-''"
    then have "(of_char (digit_char d) :: nat) = of_char CHR ''-''" by simp
    with k assms show False by simp
  qed
  show "digit_char d \<noteq> CHR ''+''"
  proof
    assume "digit_char d = CHR ''+''"
    then have "(of_char (digit_char d) :: nat) = of_char CHR ''+''" by simp
    with k assms show False by simp
  qed
  show "\<not> is_space (digit_char d)"
  proof
    assume "is_space (digit_char d)"
    then have "(of_char (digit_char d) :: nat) \<in> {9, 10, 11, 12, 13, 32}"
      unfolding is_space_def by auto
    with k assms show False by simp
  qed
qed

lemma nat_digits_all_digits: "\<forall>c \<in> set (nat_digits n). is_digit c"
proof (induction n rule: nat_digits.induct)
  case (1 n)
  show ?case
  proof (cases "n < 10")
    case True
    then show ?thesis by (subst nat_digits.simps) (auto simp: is_digit_def)
  next
    case False
    have "n mod 10 < 10" by simp
    then have "is_digit (digit_char (n mod 10))" unfolding is_digit_def by blast
    with False "1.IH" show ?thesis by (subst nat_digits.simps) auto
  qed
qed

lemma nat_digits_nonempty: "nat_digits n \<noteq> []"
  by (subst nat_digits.simps) simp

lemma py_digits_all_digits:
  "\<forall>c \<in> set ds. is_digit c \<Longrightarrow> ds \<noteq> [] \<or> b \<Longrightarrow>
     py_digits acc b ds = Some (foldl (\<lambda>a c. 10 * a + (of_char c - 48)) acc ds)"
proof (induction ds arbitrary: acc b)
  case Nil
  then show ?case by simp
next
  case (Cons c ds)
  from Cons.prems obtain d where d: "d < 10" "c = digit_char d"
    by (auto simp: is_digit_def)
  have "py_digits acc b (c # ds) = py_digits (10 * acc + d) True ds"
    using d by (simp add: digit_val_digit_char digit_char_not_special)
  also have "\<dots> = Some (foldl (\<lambda>a c. 10 * a + (of_char c - 48)) (10 * acc + d) ds)"
    using Cons.prems by (intro Cons.IH) auto
  also have "10 * acc + d = 10 * acc + (of_char c - 48)"
    using d by (simp add: of_char_digit_char)
  finally show ?case by simp
qed

lemma foldl_nat_digits:
  "foldl (\<lambda>a c. 10 * a + (of_char c - 48)) 0 (nat_digits n) = n"
proof (induction n rule: nat_digits.induct)
  case (1 n)
  show ?case
  proof (cases "n < 10")
    case True
    then show ?thesis by (subst nat_digits.simps) (simp add: of_char_digit_char)
  next
    case False
    have "n mod 10 < 10" by simp
    then have "(of_char (digit_char (n mod 10)) :: nat) = 48 + n mod 10"
      by (rule of_char_digit_char)
    with False "1.IH" show ?thesis by (subst nat_digits.simps) simp
  qed
qed

lemma py_digits_nat_digits: "py_digits 0 False (nat_digits n) = Some n"
  using py_digits_all_digits [OF nat_digits_all_digits, of n False 0]
  by (simp add: nat_digits_nonempty foldl_nat_digits)

lemma strip_no_space:
  assumes "xs \<noteq> []" "\<not> is_space (hd xs)" "\<not> is_space (last xs)"
  shows "py_strip xs = xs"
proof -
  have 1: "dropWhile is_space xs = xs"
    using assms by (cases xs) auto
  have "rev xs \<noteq> []" "\<not> is_space (hd (rev xs))"
    using assms by (simp_all add: hd_rev)
  then have 2: "dropWhile is_space (rev xs) = rev xs"
    by (cases "rev xs") auto
  show ?thesis unfolding py_strip_def 1 2 by simp
qed

lemma nat_digits_ends:
  "is_digit (hd (nat_digits n))" "is_digit (last (nat_digits n))"
  using nat_digits_all_digits [of n] nat_digits_nonempty [of n] by auto

lemma is_digit_not_special:
  assumes "is_digit c"
  shows "c \<noteq> CHR ''_''" "c \<noteq> CHR ''-''" "c \<noteq> CHR ''+''" "\<not> is_space c"
  using assms digit_char_not_special unfolding is_digit_def by auto

lemma py_int_nat_digits: "py_int (nat_digits n) = Some (int n)"
proof -
  obtain c cs where cs: "nat_digits n = c # cs"
    using nat_digits_nonempty [of n] by (cases "nat_digits n") auto
  have s: "py_strip (nat_digits n) = nat_digits n"
    by (rule strip_no_space) (simp_all add: nat_digits_nonempty nat_digits_ends is_digit_not_special)
  have c: "is_digit c" using nat_digits_ends(1) [of n] cs by simp
  have "py_int (nat_digits n) = map_option int (py_digits 0 False (c # cs))"
    unfolding py_int_def s unfolding cs
    using c by (simp add: is_digit_not_special del: py_digits.simps)
  then show ?thesis using py_digits_nat_digits [of n] cs by simp
qed

lemma py_int_neg_nat_digits: "py_int (CHR ''-'' # nat_digits n) = Some (- int n)"
proof -
  have "\<not> is_space CHR ''-''" by (simp add: is_space_def)
  then have s: "py_strip (CHR ''-'' # nat_digits n) = CHR ''-'' # nat_digits n"
    by (intro strip_no_space) (simp_all add: nat_digits_nonempty nat_digits_ends is_digit_not_special)
  show ?thesis
    by (simp add: py_int_def s py_digits_nat_digits)
qed

lemma py_int_py_str: "py_int (py_str i) = Some i"
  by (simp add: py_str_def py_int_nat_digits py_int_neg_nat_digits)

lemma update_first_absent:
  "u \<notin> url ` set rs \<Longrightarrow> update_first now u st inc rs = Inr None"
  by (induction rs) auto

lemma update_first_present:
  assumes "u \<in> url ` set rs"
  shows "\<exists>pre r post. rs = pre @ r # post \<and> u \<notin> url ` set pre \<and> url r = u
      \<and> update_first now u st inc rs
          = (if inc \<and> py_int (retry_count r) = None then Inl ValueError
             else Inr (Some (pre @ updated_row now st inc r # post)))"
  using assms
proof (induction rs)
  case Nil
  then show ?case by simp
next
  case (Cons x rs)
  show ?case
  proof (cases "url x = u")
    case True
    have "x # rs = [] @ x # rs" by simp
    moreover have "update_first now u st inc (x # rs)
          = (if inc \<and> py_int (retry_count x) = None then Inl ValueError
             else Inr (Some ([] @ updated_row now st inc x # rs)))"
      using True by (auto simp: updated_row_def Let_def split: option.splits)
    ultimately show ?thesis using True
      by (metis empty_iff image_empty list.set(1))
  next
    case False
    with Cons.prems have "u \<in> url ` set rs" by auto
    from Cons.IH [OF this] obtain pre r post where
      s: "rs = pre @ r # post" and n: "u \<notin> url ` set pre" and m: "url r = u"
      and e: "update_first now u st inc rs
          = (if inc \<and> py_int (retry_count r) = None then Inl ValueError
             else Inr (Some (pre @ updated_row now st inc r # post)))"
      by blast
    have "x # rs = (x # pre) @ r # post" using s by simp
    moreover have "u \<notin> url ` set (x # pre)" using n False by auto
    moreover have "update_first now u st inc (x # rs)
          = (if inc \<and> py_int (retry_count r) = None then Inl ValueError
             else Inr (Some ((x # pre) @ updated_row now st inc r # post)))"
      using False e by simp
    ultimately show ?thesis using m by blast
  qed
qed

text \<open>
  C4, as the claim states it, fails on a record whose \<open>retry_count\<close> is no number:
  the url is present and \<open>increment_retry\<close> is requested, but \<open>int('')\<close> raises
  \<open>ValueError\<close> before anything is written; the record keeps its status and its retry
  count is not incremented.
\<close>

theorem update_url_status_bad_retry_count:
  "''a'' \<in> url ` set (read_csv blank_retry_store)
   \<and> update_url_status ''t1'' blank_retry_store ''a'' STATUS_FAILED True
       = (Inl ValueError, blank_retry_store)
   \<and> read_csv (snd (update_url_status ''t1'' blank_retry_store ''a'' STATUS_FAILED True))
       = [mk_row ''a'' ''PENDING'' []]"
proof -
  have p: "''a'' \<in> url ` set (read_csv blank_retry_store)"
    by (simp add: read_csv_def blank_retry_store_def mk_row_def)
  have n: "py_int [] = None" by code_simp
  have e: "update_url_status ''t1'' blank_retry_store ''a'' STATUS_FAILED True
       = (Inl ValueError, blank_retry_store)"
    by (simp add: update_url_status_def read_csv_def blank_retry_store_def mk_row_def n)
  have r: "read_csv (snd (update_url_status ''t1'' blank_retry_store ''a'' STATUS_FAILED True))
       = [mk_row ''a'' ''PENDING'' []]"
    unfolding e snd_conv by (simp add: read_csv_def blank_retry_store_def)
  from p e r show ?thesis by (intro conjI)
qed

text \<open>
  C4, amended. If no row has the url, the result is \<open>False\<close> (not found) and the store
  is the one given: nothing is written and no record is created. If a row has it and
  either \<open>increment_retry\<close> is not requested or the \<open>retry_count\<close> of the first such
  row \<open>r\<close> is an ASCII decimal numeral shorter than 4300 characters, the update is
  written with \<open>r\<close> replaced in place by a row that differs from it in \<open>status\<close> (the
  new status), \<open>updated_at\<close> (the time of the call) and, when \<open>increment_retry\<close> is
  requested, \<open>retry_count\<close> (the numeral of the old count plus one). The rows before
  and after keep their place and content.
\<close>

theorem update_url_status_frame:
  "(u \<notin> url ` set (read_csv s) \<longrightarrow> update_url_status now s u st inc = (Inr False, s))
   \<and> (u \<in> url ` set (read_csv s) \<longrightarrow>
        (\<exists>pre r post.
           read_csv s = pre @ r # post \<and> u \<notin> url ` set pre \<and> url r = u
           \<and> ((inc \<longrightarrow> (\<exists>n. py_int (retry_count r) = Some n) \<and> length (retry_count r) < 4300)
                \<longrightarrow> (\<exists>r'. update_url_status now s u st inc
                           = (Inr True, s\<lparr>content := Some (pre @ r' # post),
                                           writes := Suc (writes s)\<rparr>)
                      \<and> url r' = url r \<and> lastmod r' = lastmod r
                      \<and> created_at r' = created_at r
                      \<and> status r' = st \<and> updated_at r' = now
                      \<and> (\<not> inc \<longrightarrow> retry_count r' = retry_count r)
                      \<and> (inc \<longrightarrow> (\<exists>n. py_int (retry_count r) = Some n
                                    \<and> retry_count r' = py_str (n + 1)
                                    \<and> py_int (retry_count r') = Some (n + 1)))))))"
  (is "_ \<and> (_ \<longrightarrow> ?B)")
proof (intro conjI impI)
  assume "u \<notin> url ` set (read_csv s)"
  then show "update_url_status now s u st inc = (Inr False, s)"
    by (simp add: update_url_status_def update_first_absent)
next
  assume "u \<in> url ` set (read_csv s)"
  from update_first_present [OF this, of now st inc] obtain pre r post where
    s: "read_csv s = pre @ r # post" and n: "u \<notin> url ` set pre" and m: "url r = u"
    and e: "update_first now u st inc (read_csv s)
          = (if inc \<and> py_int (retry_count r) = None then Inl ValueError
             else Inr (Some (pre @ updated_row now st inc r # post)))"
    by blast
  have "(inc \<longrightarrow> (\<exists>n. py_int (retry_count r) = Some n) \<and> length (retry_count r) < 4300)
        \<longrightarrow> (\<exists>r'. update_url_status now s u st inc
                    = (Inr True, s\<lparr>content := Some (pre @ r' # post),
                                    writes := Suc (writes s)\<rparr>)
               \<and> url r' = url r \<and> lastmod r' = lastmod r
               \<and> created_at r' = created_at r
               \<and> status r' = st \<and> updated_at r' = now
               \<and> (\<not> inc \<longrightarrow> retry_count r' = retry_count r)
               \<and> (inc \<longrightarrow> (\<exists>n. py_int (retry_count r) = Some n
                             \<and> retry_count r' = py_str (n + 1)
                             \<and> py_int (retry_count r') = Some (n + 1))))"
  proof
    assume h: "inc \<longrightarrow> (\<exists>n. py_int (retry_count r) = Some n) \<and> length (retry_count r) < 4300"
    then have False: "\<not> (inc \<and> py_int (retry_count r) = None)" by auto
    have "update_url_status now s u st inc
        = (Inr True, s\<lparr>content := Some (pre @ updated_row now st inc r # post),
                        writes := Suc (writes s)\<rparr>)"
    proof -
      from e False have "update_first now u st inc (read_csv s)
          = Inr (Some (pre @ updated_row now st inc r # post))" by simp
      then show ?thesis by (simp add: update_url_status_def write_csv_def)
    qed
    moreover have "inc \<longrightarrow> (\<exists>n. py_int (retry_count r) = Some n
                             \<and> retry_count (updated_row now st inc r) = py_str (n + 1)
                             \<and> py_int (retry_count (updated_row now st inc r)) = Some (n + 1))"
      using False by (auto simp: updated_row_def py_int_py_str)
    ultimately show "\<exists>r'. update_url_status now s u st inc
                    = (Inr True, s\<lparr>content := Some (pre @ r' # post),
                                    writes := Suc (writes s)\<rparr>)
               \<and> url r' = url r \<and> lastmod r' = lastmod r
               \<and> created_at r' = created_at r
               \<and> status r' = st \<and> updated_at r' = now
               \<and> (\<not> inc \<longrightarrow> retry_count r' = retry_count r)
               \<and> (inc \<longrightarrow> (\<exists>n. py_int (retry_count r) = Some n
                             \<and> retry_count r' = py_str (n + 1)
                             \<and> py_int (retry_count r') = Some (n + 1)))"
      using False
      by (auto simp: updated_row_def intro!: exI [of _ "updated_row now st inc r"])
  qed
  with s n m show ?B
    by blast
qed

theorem update_url_status_frame_witness:
  "py_int (retry_count (mk_row ''c'' ''FAILED'' ''1'')) = Some 1
   \<and> length (retry_count (mk_row ''c'' ''FAILED'' ''1'')) < 4300
   \<and> ''zz'' \<notin> url ` set (read_csv mixed_store)
   \<and> update_url_status ''t1'' mixed_store ''zz'' STATUS_SUCCESS False = (Inr False, mixed_store)
   \<and> ''c'' \<in> url ` set (read_csv mixed_store)
   \<and> update_url_status ''t1'' mixed_store ''c'' STATUS_FAILED True
       = (Inr True,
          \<lparr>content = Some [mk_row ''a'' ''PENDING'' ''0'', mk_row ''b'' ''DONE'' ''0'',
                           (mk_row ''c'' ''FAILED'' ''2'')\<lparr>updated_at := ''t1''\<rparr>,
                           mk_row ''d'' ''PENDING'' ''0''],
           writes = 1\<rparr>)"
proof -
  have a: "''zz'' \<notin> url ` set (read_csv mixed_store)"
    by (simp add: read_csv_def mixed_store_def mk_row_def)
  have p: "''c'' \<in> url ` set (read_csv mixed_store)"
    by (simp add: read_csv_def mixed_store_def mk_row_def)
  have n: "py_int ''1'' = Some 1" by code_simp
  have s: "py_str 2 = ''2''" by code_simp
  have ev: "update_url_status ''t1'' mixed_store ''c'' STATUS_FAILED True
       = (Inr True,
          \<lparr>content = Some [mk_row ''a'' ''PENDING'' ''0'', mk_row ''b'' ''DONE'' ''0'',
                           (mk_row ''c'' ''FAILED'' ''2'')\<lparr>updated_at := ''t1''\<rparr>,
                           mk_row ''d'' ''PENDING'' ''0''],
           writes = 1\<rparr>)"
    by (simp add: update_url_status_def read_csv_def write_csv_def mixed_store_def mk_row_def
        STATUS_FAILED_def n s)
  from update_url_status_frame [of "''zz''" mixed_store "''t1''" STATUS_SUCCESS False]
  have "''zz'' \<notin> url ` set (read_csv mixed_store)
      \<longrightarrow> update_url_status ''t1'' mixed_store ''zz'' STATUS_SUCCESS False
            = (Inr False, mixed_store)"
    by (rule conjunct1)
  from this a
  have t: "update_url_status ''t1'' mixed_store ''zz'' STATUS_SUCCESS False
      = (Inr False, mixed_store)"
    by (rule mp)
  have h1: "py_int (retry_count (mk_row ''c'' ''FAILED'' ''1'')) = Some 1"
    by (simp add: mk_row_def n)
  have h2: "length (retry_count (mk_row ''c'' ''FAILED'' ''1'')) < 4300"
    by (simp add: mk_row_def)
  from h1 h2 a t p ev show ?thesis by (intro conjI)
qed

section \<open>Submission engine: rounds and effects\<close>

lemma dict_set_keys:
  "map fst (dict_set d k v) = (if k \<in> fst ` set d then map fst d else map fst d @ [k])"
  by (induction d) (auto simp: rev_image_eqI)

lemma dict_set_map_of: "map_of (dict_set d k v) = (map_of d)(k \<mapsto> v)"
  by (induction d) auto

lemma dict_set_distinct: "distinct (map fst d) \<Longrightarrow> distinct (map fst (dict_set d k v))"
  by (simp add: dict_set_keys)

lemma dict_set_key_set: "fst ` set (dict_set d k v) = insert k (fst ` set d)"
proof -
  have "set (map fst (dict_set d k v)) = insert k (set (map fst d))"
    unfolding dict_set_keys by auto
  then show ?thesis by simp
qed

lemma batch_callback_eq: "batch_callback results u x = dict_set results u (outcome x)"
  by (simp add: batch_callback_def outcome_def split: option.splits)

lemma foldl_batch_callback:
  "distinct (map fst acc) \<Longrightarrow>
   distinct (map fst (foldl (\<lambda>results u. batch_callback results u (f u)) acc xs))
   \<and> fst ` set (foldl (\<lambda>results u. batch_callback results u (f u)) acc xs)
       = fst ` set acc \<union> set xs
   \<and> (\<forall>u. map_of (foldl (\<lambda>results u. batch_callback results u (f u)) acc xs) u
          = (if u \<in> set xs then Some (outcome (f u)) else map_of acc u))"
proof (induction xs arbitrary: acc)
  case Nil
  then show ?case by simp
next
  case (Cons x xs)
  let ?acc = "batch_callback acc x (f x)"
  have d: "distinct (map fst ?acc)"
    using Cons.prems by (simp add: batch_callback_eq dict_set_distinct)
  have k: "fst ` set ?acc = insert x (fst ` set acc)"
    by (simp add: batch_callback_eq dict_set_key_set)
  have m: "map_of ?acc = (map_of acc)(x \<mapsto> outcome (f x))"
    by (simp add: batch_callback_eq dict_set_map_of)
  from Cons.IH [OF d] show ?case
    unfolding foldl_Cons k m by auto
qed

lemma execute_batch_request_keys:
  "distinct (map fst (execute_batch_request service k urls))"
  "fst ` set (execute_batch_request service k urls) = set urls"
  "map_of (execute_batch_request service k urls) u
     = (if u \<in> set urls then Some (outcome (service k urls u)) else None)"
  using foldl_batch_callback [of "[]" "service k urls" urls]
  unfolding execute_batch_request_def by simp_all

lemma foldl_handle_result:
  "foldl (handle_result R cb a) (fr, nx, cs) res
     = (foldl (store_result R a) fr res, nx @ next_urls R a res, cs @ round_calls R cb a res)"
proof (induction res arbitrary: fr nx cs)
  case Nil
  show ?case by (simp add: next_urls_def failed_urls_def round_calls_def)
next
  case (Cons x res)
  obtain u ok e where x: "x = (u, ok, e)" by (cases x)
  show ?case
    unfolding x foldl_Cons
    by (simp add: Cons.IH next_urls_def failed_urls_def round_calls_def)
qed

lemma submit_loop_stop:
  "\<not> (ws \<noteq> [] \<and> a < R) \<Longrightarrow> submit_loop service R d cb fr ws a = (fr, [])"
  by (subst submit_loop.simps) auto

lemma submit_loop_unfold:
  assumes "ws \<noteq> []" "a < R"
  shows "submit_loop service R d cb fr ws a
    = (fst (submit_loop service R d cb
              (foldl (store_result R (a + 1)) fr (execute_batch_request service (a + 1) ws))
              (next_urls R (a + 1) (execute_batch_request service (a + 1) ws)) (a + 1)),
       Batch (a + 1) ws (execute_batch_request service (a + 1) ws)
         # round_calls R cb (a + 1) (execute_batch_request service (a + 1) ws)
         @ (if next_urls R (a + 1) (execute_batch_request service (a + 1) ws) \<noteq> [] \<and> a + 1 < R
            then [Sleep d] else [])
         @ snd (submit_loop service R d cb
              (foldl (store_result R (a + 1)) fr (execute_batch_request service (a + 1) ws))
              (next_urls R (a + 1) (execute_batch_request service (a + 1) ws)) (a + 1)))"
  using assms
  by (subst submit_loop.simps) (simp add: Let_def foldl_handle_result)

lemma result_calls_callbacks: "list_all is_callback (result_calls R a x)"
  by (cases x) simp

lemma round_calls_callbacks: "list_all is_callback (round_calls R cb a res :: 'd event list)"
proof -
  have "list_all is_callback (concat (map (result_calls R a) res) :: 'd event list)"
    by (induction res) (simp_all add: result_calls_callbacks)
  then show ?thesis by (simp add: round_calls_def)
qed

lemma round_calls_no_batch: "Batch k us r \<notin> set (round_calls R cb a res)"
  using round_calls_callbacks [of R cb a res] by (auto simp: list_all_iff)


lemma next_urls_subset: "set (next_urls R a res) \<subseteq> fst ` set res"
  by (auto simp: next_urls_def failed_urls_def)

lemma next_urls_iff:
  "distinct (map fst res) \<Longrightarrow>
     u \<in> set (next_urls R a res) \<longleftrightarrow> a < R \<and> (\<exists>e. map_of res u = Some (False, e))"
  by (force simp: next_urls_def failed_urls_def)




lemma loop_events_cases:
  assumes "x \<in> set (snd (submit_loop service R d cb fr ws a))"
  obtains
    (stop) "False" "\<not> (ws \<noteq> [] \<and> a < R)"
  | (head) "ws \<noteq> []" "a < R" "x = Batch (a + 1) ws (execute_batch_request service (a + 1) ws)"
  | (call) "ws \<noteq> []" "a < R"
      "x \<in> set (round_calls R cb (a + 1) (execute_batch_request service (a + 1) ws))"
  | (pause) "ws \<noteq> []" "a < R" "x = Sleep d"
      "next_urls R (a + 1) (execute_batch_request service (a + 1) ws) \<noteq> []" "a + 1 < R"
  | (rest) "ws \<noteq> []" "a < R"
      "x \<in> set (snd (submit_loop service R d cb
              (foldl (store_result R (a + 1)) fr (execute_batch_request service (a + 1) ws))
              (next_urls R (a + 1) (execute_batch_request service (a + 1) ws)) (a + 1)))"
proof (cases "ws \<noteq> [] \<and> a < R")
  case False
  with assms show ?thesis by (simp add: submit_loop_stop)
next
  case True
  then have w: "ws \<noteq> []" and l: "a < R" by simp_all
  from assms have "x \<in> set (Batch (a + 1) ws (execute_batch_request service (a + 1) ws)
         # round_calls R cb (a + 1) (execute_batch_request service (a + 1) ws)
         @ (if next_urls R (a + 1) (execute_batch_request service (a + 1) ws) \<noteq> [] \<and> a + 1 < R
            then [Sleep d] else [])
         @ snd (submit_loop service R d cb
              (foldl (store_result R (a + 1)) fr (execute_batch_request service (a + 1) ws))
              (next_urls R (a + 1) (execute_batch_request service (a + 1) ws)) (a + 1)))"
    unfolding submit_loop_unfold [OF w l] snd_conv .
  then consider
      "x = Batch (a + 1) ws (execute_batch_request service (a + 1) ws)"
    | "x \<in> set (round_calls R cb (a + 1) (execute_batch_request service (a + 1) ws))"
    | "x \<in> set (if next_urls R (a + 1) (execute_batch_request service (a + 1) ws) \<noteq> [] \<and> a + 1 < R
            then [Sleep d] else [])"
    | "x \<in> set (snd (submit_loop service R d cb
              (foldl (store_result R (a + 1)) fr (execute_batch_request service (a + 1) ws))
              (next_urls R (a + 1) (execute_batch_request service (a + 1) ws)) (a + 1)))"
    unfolding set_simps set_append by blast
  then show ?thesis
  proof cases
    case 1 with w l show ?thesis by (rule head)
  next
    case 2 with w l show ?thesis by (rule call)
  next
    case 3
    then have "x = Sleep d"
      "next_urls R (a + 1) (execute_batch_request service (a + 1) ws) \<noteq> []" "a + 1 < R"
      by (simp_all split: if_splits)
    with w l show ?thesis by (rule pause)
  next
    case 4 with w l show ?thesis by (rule rest)
  qed
qed

lemma loop_batches:
  "Batch k us res \<in> set (snd (submit_loop service R d cb fr ws a)) \<Longrightarrow>
     a < k \<and> k \<le> R \<and> set us \<subseteq> set ws \<and> us \<noteq> []
     \<and> res = execute_batch_request service k us"
proof (induction "nat (R - a)" arbitrary: a ws fr)
  case 0
  then have "\<not> (ws \<noteq> [] \<and> a < R)" by simp
  with "0.prems" show ?case by (simp add: submit_loop_stop)
next
  case (Suc n)
  from Suc.prems show ?case
  proof (cases rule: loop_events_cases)
    case stop
    then show ?thesis by simp
  next
    case head
    then show ?thesis by simp
  next
    case call
    then show ?thesis by (simp add: round_calls_no_batch)
  next
    case pause
    then show ?thesis by simp
  next
    case rest
    from Suc.hyps(2) rest(2) have n: "n = nat (R - (a + 1))" by simp
    from Suc.hyps(1) [OF n rest(3)]
    have i: "a + 1 < k \<and> k \<le> R
        \<and> set us \<subseteq> set (next_urls R (a + 1) (execute_batch_request service (a + 1) ws))
        \<and> us \<noteq> [] \<and> res = execute_batch_request service k us" .
    have "set (next_urls R (a + 1) (execute_batch_request service (a + 1) ws)) \<subseteq> set ws"
      using next_urls_subset [of R "a + 1" "execute_batch_request service (a + 1) ws"]
      by (simp add: execute_batch_request_keys(2))
    with i show ?thesis by auto
  qed
qed

lemma succeeded_not_next:
  assumes "(u, True, e) \<in> set (execute_batch_request service k ws)"
  shows "u \<notin> set (next_urls R k (execute_batch_request service k ws))"
proof -
  let ?r = "execute_batch_request service k ws"
  have d: "distinct (map fst ?r)" by (rule execute_batch_request_keys(1))
  from map_of_is_SomeI [OF d assms] have "map_of ?r u = Some (True, e)" .
  then show ?thesis by (simp add: next_urls_iff [OF d])
qed

lemma loop_no_resubmission:
  "Batch j us' res' \<in> set (snd (submit_loop service R d cb fr ws a)) \<Longrightarrow>
   Batch k us res \<in> set (snd (submit_loop service R d cb fr ws a)) \<Longrightarrow>
   j < k \<Longrightarrow> (u, True, e) \<in> set res' \<Longrightarrow> u \<notin> set us"
proof (induction "nat (R - a)" arbitrary: a ws fr)
  case 0
  then have "\<not> (ws \<noteq> [] \<and> a < R)" by simp
  with "0.prems"(1) show ?case by (simp add: submit_loop_stop)
next
  case (Suc n)
  let ?r = "execute_batch_request service (a + 1) ws"
  let ?rest = "snd (submit_loop service R d cb (foldl (store_result R (a + 1)) fr ?r)
      (next_urls R (a + 1) ?r) (a + 1))"
  have kin: "Batch k us res \<in> set ?rest"
    using Suc.prems(2)
  proof (cases rule: loop_events_cases)
    case stop
    then show ?thesis by simp
  next
    case head
    then have "k = a + 1" by simp
    moreover from loop_batches [OF Suc.prems(1)] have "a < j" by simp
    ultimately show ?thesis using Suc.prems(3) by simp
  next
    case call
    then show ?thesis by (simp add: round_calls_no_batch)
  next
    case pause
    then show ?thesis by simp
  next
    case rest
    then show ?thesis by simp
  qed
  from Suc.prems(1) show ?case
  proof (cases rule: loop_events_cases)
    case stop
    then show ?thesis by simp
  next
    case head
    then have r: "res' = ?r" by simp
    from loop_batches [OF kin] have s: "set us \<subseteq> set (next_urls R (a + 1) ?r)" by simp
    from Suc.prems(4) have "(u, True, e) \<in> set ?r" unfolding r .
    then have "u \<notin> set (next_urls R (a + 1) ?r)" by (rule succeeded_not_next)
    with s show ?thesis by blast
  next
    case call
    then show ?thesis by (simp add: round_calls_no_batch)
  next
    case pause
    then show ?thesis by simp
  next
    case rest
    from Suc.hyps(2) rest(2) have n: "n = nat (R - (a + 1))" by simp
    from Suc.hyps(1) [OF n rest(3) kin Suc.prems(3) Suc.prems(4)] show ?thesis .
  qed
qed

lemma submit_urls_events:
  "urls \<noteq> [] \<Longrightarrow> length urls \<le> 100 \<Longrightarrow>
     submit_urls service urls R d cb
       = (Inr (fst (submit_loop service R d cb [] urls 0)),
          snd (submit_loop service R d cb [] urls 0))"
  by (simp add: submit_urls_def split: prod.splits)

lemma submit_urls_rejected:
  "urls = [] \<or> 100 < length urls \<Longrightarrow> snd (submit_urls service urls R d cb) = []"
  by (auto simp: submit_urls_def)

text \<open>
  C2. Within one \<open>submit_urls\<close> call, take the batch request of a round \<open>j\<close> and
  the batch request of a later round \<open>k\<close>: a url that the results of round \<open>j\<close> report
  as succeeded is not among the urls sent in round \<open>k\<close>.
\<close>

theorem submit_urls_no_resubmission:
  assumes "Batch j us' res' \<in> set (snd (submit_urls service urls R d cb))"
    and "Batch k us res \<in> set (snd (submit_urls service urls R d cb))"
    and "j < k"
    and "(u, True, e) \<in> set res'"
  shows "u \<notin> set us"
proof (cases "urls = [] \<or> 100 < length urls")
  case True
  with assms(1) show ?thesis by (simp add: submit_urls_rejected)
next
  case False
  then have e: "snd (submit_urls service urls R d cb) = snd (submit_loop service R d cb [] urls 0)"
    by (simp add: submit_urls_events)
  from assms show ?thesis unfolding e by (rule loop_no_resubmission)
qed













lemma flaky_run:
  "submit_urls flaky_service [''a'', ''b'', ''c''] 3 () True
     = (Inr [(''a'', True, None, 1), (''b'', True, None, 2), (''c'', False, Some ''boom'', 3)],
        [Batch 1 [''a'', ''b'', ''c'']
           [(''a'', True, None), (''b'', False, Some (prefix_429 @ ''quota'')),
            (''c'', False, Some (prefix_429 @ ''quota''))],
         Callback ''a'' True None 1, Sleep (),
         Batch 2 [''b'', ''c''] [(''b'', True, None), (''c'', False, Some ''boom'')],
         Callback ''b'' True None 2, Sleep (),
         Batch 3 [''c''] [(''c'', False, Some ''boom'')],
         Callback ''c'' False (Some ''boom'') 3])"
  by code_simp


theorem submit_urls_no_resubmission_witness:
  "Batch 1 [''a'', ''b'', ''c'']
       [(''a'', True, None), (''b'', False, Some (prefix_429 @ ''quota'')),
        (''c'', False, Some (prefix_429 @ ''quota''))]
     \<in> set (snd (submit_urls flaky_service [''a'', ''b'', ''c''] 3 () True))
   \<and> Batch 2 [''b'', ''c''] [(''b'', True, None), (''c'', False, Some ''boom'')]
     \<in> set (snd (submit_urls flaky_service [''a'', ''b'', ''c''] 3 () True))
   \<and> (1::int) < 2
   \<and> (''a'', True, None)
     \<in> set [(''a'', True, None), (''b'', False, Some (prefix_429 @ ''quota'')),
            (''c'', False, Some (prefix_429 @ ''quota''))]
   \<and> ''a'' \<notin> set [''b'', ''c'']"
proof -
  have 1: "Batch 1 [''a'', ''b'', ''c'']
       [(''a'', True, None), (''b'', False, Some (prefix_429 @ ''quota'')),
        (''c'', False, Some (prefix_429 @ ''quota''))]
     \<in> set (snd (submit_urls flaky_service [''a'', ''b'', ''c''] 3 () True))"
    unfolding flaky_run by simp
  have 2: "Batch 2 [''b'', ''c''] [(''b'', True, None), (''c'', False, Some ''boom'')]
     \<in> set (snd (submit_urls flaky_service [''a'', ''b'', ''c''] 3 () True))"
    unfolding flaky_run by simp
  have 3: "(1::int) < 2" by simp
  have 4: "(''a'', True, None)
     \<in> set [(''a'', True, None), (''b'', False, Some (prefix_429 @ ''quota'')),
            (''c'', False, Some (prefix_429 @ ''quota''))]"
    by simp
  from submit_urls_no_resubmission [OF 1 2 3 4] have 5: "''a'' \<notin> set [''b'', ''c'']" .
  from 1 2 3 4 5 show ?thesis by (intro conjI)
qed

section \<open>Submission engine: error messages and notifications\<close>

lemma map_dict_set:
  assumes "\<And>k v. g (k, v) = (k, h v)"
  shows "map g (dict_set d k v) = dict_set (map g d) k (h v)"
proof (induction d)
  case Nil
  show ?case by (simp add: assms)
next
  case (Cons x d)
  obtain k' v' where x: "x = (k', v')" by (cases x)
  show ?case unfolding x using Cons.IH by (simp add: assms)
qed

lemma shape_dict_set: "shape (dict_set d u (ok, err)) = dict_set (shape d) u ok"
  unfolding shape_def
  using map_dict_set [of "\<lambda>(u, ok, err). (u, ok)" fst d u "(ok, err)"] by auto

lemma verdicts_dict_set: "verdicts (dict_set fr u (ok, err, k)) = dict_set (verdicts fr) u (ok, k)"
  unfolding verdicts_def
  using map_dict_set [of "\<lambda>(u, ok, err, k). (u, ok, k)" "\<lambda>(ok, err, k). (ok, k)" fr u "(ok, err, k)"]
  by auto

lemma shape_batch_callback:
  "shape (batch_callback res u x) = dict_set (shape res) u (x = None)"
  by (cases x) (simp_all add: batch_callback_def shape_dict_set)

lemma shape_foldl_batch_callback:
  "shape (foldl (\<lambda>results u. batch_callback results u (f u)) acc xs)
     = foldl (\<lambda>sh u. dict_set sh u (f u = None)) (shape acc) xs"
  by (induction xs arbitrary: acc) (simp_all add: shape_batch_callback)

lemma foldl_agree:
  "\<forall>u \<in> set xs. p u = q u \<Longrightarrow>
     foldl (\<lambda>sh u. dict_set sh u (p u)) acc xs = foldl (\<lambda>sh u. dict_set sh u (q u)) acc xs"
  by (induction xs arbitrary: acc) simp_all

lemma shape_execute_agree:
  assumes "\<forall>u \<in> set ws. (s1 k ws u = None) = (s2 k ws u = None)"
  shows "shape (execute_batch_request s1 k ws) = shape (execute_batch_request s2 k ws)"
  unfolding execute_batch_request_def shape_foldl_batch_callback
  using assms by (rule foldl_agree)

lemma next_urls_shape:
  "next_urls R a res = (if a < R then map fst (filter (\<lambda>x. \<not> snd x) (shape res)) else [])"
  by (induction res) (auto simp: next_urls_def failed_urls_def shape_def)

lemma erase_result_calls:
  "map erase_messages (result_calls R a x) = verdict_calls R a (fst x, fst (snd x))"
  by (cases x) simp

lemma erase_round_calls:
  "map erase_messages (round_calls R cb a res :: 'd event list)
     = (if cb then concat (map (verdict_calls R a) (shape res)) else [])"
proof -
  have "map erase_messages (concat (map (result_calls R a) res) :: 'd event list)
      = concat (map (verdict_calls R a) (shape res))"
    by (induction res) (auto simp: shape_def erase_result_calls)
  then show ?thesis by (simp add: round_calls_def)
qed

lemma erase_batch:
  "erase_messages (Batch k us res) = Batch k us (map (\<lambda>(u, ok). (u, ok, None)) (shape res))"
  by (simp add: shape_def comp_def case_prod_beta)

lemma verdicts_store_result:
  "verdicts (store_result R a fr x) = store_verdict R a (verdicts fr) (fst x, fst (snd x))"
  by (cases x) (simp add: verdicts_dict_set)

lemma verdicts_foldl_store:
  "verdicts (foldl (store_result R a) fr res) = foldl (store_verdict R a) (verdicts fr) (shape res)"
  by (induction res arbitrary: fr) (auto simp: shape_def verdicts_store_result)

lemma loop_agree:
  fixes d :: 'a
  assumes "\<forall>k us res. Batch k us res \<in> set (snd (submit_loop s1 R d cb fr1 ws a))
      \<longrightarrow> (\<forall>u \<in> set us. (s1 k us u = None) = (s2 k us u = None))"
    and "verdicts fr1 = verdicts fr2"
  shows "map erase_messages (snd (submit_loop s1 R d cb fr1 ws a))
       = map erase_messages (snd (submit_loop s2 R d cb fr2 ws a))
     \<and> verdicts (fst (submit_loop s1 R d cb fr1 ws a))
       = verdicts (fst (submit_loop s2 R d cb fr2 ws a))"
  using assms
proof (induction "nat (R - a)" arbitrary: a ws fr1 fr2)
  case 0
  then have "\<not> (ws \<noteq> [] \<and> a < R)" by simp
  then show ?case using "0.prems"(2) by (simp add: submit_loop_stop)
next
  case (Suc n)
  show ?case
  proof (cases "ws \<noteq> [] \<and> a < R")
    case False
    then show ?thesis using Suc.prems(2) by (simp add: submit_loop_stop)
  next
    case True
    then have w: "ws \<noteq> []" and l: "a < R" by simp_all
    from Suc.hyps(2) l have n: "n = nat (R - (a + 1))" by simp
    let ?r1 = "execute_batch_request s1 (a + 1) ws"
    let ?r2 = "execute_batch_request s2 (a + 1) ws"
    let ?f1 = "foldl (store_result R (a + 1)) fr1 ?r1"
    let ?f2 = "foldl (store_result R (a + 1)) fr2 ?r2"
    let ?nx = "next_urls R (a + 1) ?r1"
    let ?rest1 = "submit_loop s1 R d cb ?f1 ?nx (a + 1)"
    let ?rest2 = "submit_loop s2 R d cb ?f2 ?nx (a + 1)"
    have u1: "snd (submit_loop s1 R d cb fr1 ws a)
        = Batch (a + 1) ws ?r1 # round_calls R cb (a + 1) ?r1
            @ (if ?nx \<noteq> [] \<and> a + 1 < R then [Sleep d] else []) @ snd ?rest1"
      unfolding submit_loop_unfold [OF w l] snd_conv ..
    have "Batch (a + 1) ws ?r1 \<in> set (snd (submit_loop s1 R d cb fr1 ws a))"
      unfolding u1 by simp
    with Suc.prems(1) have ag: "\<forall>u \<in> set ws. (s1 (a + 1) ws u = None) = (s2 (a + 1) ws u = None)"
      by blast
    then have sh: "shape ?r1 = shape ?r2" by (rule shape_execute_agree)
    then have nx: "next_urls R (a + 1) ?r2 = ?nx"
      by (simp add: next_urls_shape)
    have cl: "map erase_messages (round_calls R cb (a + 1) ?r1 :: 'a event list)
        = map erase_messages (round_calls R cb (a + 1) ?r2)"
      by (simp add: erase_round_calls sh)
    have bt: "erase_messages (Batch (a + 1) ws ?r1 :: 'a event) = erase_messages (Batch (a + 1) ws ?r2)"
      unfolding erase_batch sh ..
    have vf: "verdicts ?f1 = verdicts ?f2"
      by (simp add: verdicts_foldl_store sh Suc.prems(2))
    have sub: "\<forall>k us res. Batch k us res \<in> set (snd ?rest1)
        \<longrightarrow> (\<forall>u \<in> set us. (s1 k us u = None) = (s2 k us u = None))"
    proof (intro allI impI)
      fix k us res
      assume "Batch k us res \<in> set (snd ?rest1)"
      then have "Batch k us res \<in> set (snd (submit_loop s1 R d cb fr1 ws a))"
        unfolding u1 by simp
      with Suc.prems(1) show "\<forall>u \<in> set us. (s1 k us u = None) = (s2 k us u = None)"
        by blast
    qed
    from Suc.hyps(1) [OF n sub vf]
    have ih: "map erase_messages (snd ?rest1) = map erase_messages (snd ?rest2)
        \<and> verdicts (fst ?rest1) = verdicts (fst ?rest2)" .
    have u2: "submit_loop s2 R d cb fr2 ws a
        = (fst ?rest2, Batch (a + 1) ws ?r2 # round_calls R cb (a + 1) ?r2
            @ (if ?nx \<noteq> [] \<and> a + 1 < R then [Sleep d] else []) @ snd ?rest2)"
      unfolding submit_loop_unfold [OF w l] nx ..
    have f1: "fst (submit_loop s1 R d cb fr1 ws a) = fst ?rest1"
      unfolding submit_loop_unfold [OF w l] fst_conv ..
    have e: "map erase_messages (snd (submit_loop s1 R d cb fr1 ws a))
        = map erase_messages (snd (submit_loop s2 R d cb fr2 ws a))"
      unfolding u1 u2 snd_conv map_append list.map bt cl using ih by simp
    have v: "verdicts (fst (submit_loop s1 R d cb fr1 ws a))
        = verdicts (fst (submit_loop s2 R d cb fr2 ws a))"
      unfolding f1 u2 fst_conv using ih by simp
    from e v show ?thesis ..
  qed
qed

lemma round_of_erase: "round_of (erase_messages e) = round_of e"
  by (cases e) simp_all

lemma rounds_of_erase: "rounds_of (map erase_messages evs) = rounds_of evs"
  by (induction evs)
    (auto simp: rounds_of_def List.map_filter_simps round_of_erase split: option.splits)

text \<open>
  C8. Take two services that, on every batch request of the first run, agree for every
  url sent on whether the request succeeds; they may differ in every exception they
  raise (kind, status code, body, text), hence in every error message that
  \<open>batch_callback\<close> builds. Then the two runs are equal once the error messages are
  erased: the same rounds with the same urls sent in each, the same succeeded and failed
  urls in each round's results, the same callbacks with the same verdict and attempt
  number, the same sleeps, and the same verdict and attempt number for every url in the
  returned dictionary.
\<close>

theorem submit_urls_messages_irrelevant:
  fixes d :: 'a
  assumes "\<forall>k us res. Batch k us res \<in> set (snd (submit_urls s1 urls R d cb))
      \<longrightarrow> (\<forall>u \<in> set us. (s1 k us u = None) = (s2 k us u = None))"
  shows "map erase_messages (snd (submit_urls s1 urls R d cb))
       = map erase_messages (snd (submit_urls s2 urls R d cb))
     \<and> rounds_of (snd (submit_urls s1 urls R d cb)) = rounds_of (snd (submit_urls s2 urls R d cb))
     \<and> map_sum id verdicts (fst (submit_urls s1 urls R d cb))
       = map_sum id verdicts (fst (submit_urls s2 urls R d cb))"
proof -
  have m: "map erase_messages (snd (submit_urls s1 urls R d cb))
       = map erase_messages (snd (submit_urls s2 urls R d cb))
     \<and> map_sum id verdicts (fst (submit_urls s1 urls R d cb))
       = map_sum id verdicts (fst (submit_urls s2 urls R d cb))"
  proof (cases "urls = [] \<or> 100 < length urls")
    case True
    then show ?thesis by (auto simp: submit_urls_def)
  next
    case False
    then have e: "\<And>s. submit_urls s urls R d cb
        = (Inr (fst (submit_loop s R d cb [] urls 0)), snd (submit_loop s R d cb [] urls 0))"
      by (simp add: submit_urls_events)
    from assms have "\<forall>k us res. Batch k us res \<in> set (snd (submit_loop s1 R d cb [] urls 0))
        \<longrightarrow> (\<forall>u \<in> set us. (s1 k us u = None) = (s2 k us u = None))"
      unfolding e snd_conv .
    from loop_agree [OF this refl]
    show ?thesis unfolding e fst_conv snd_conv by simp
  qed
  then have "rounds_of (map erase_messages (snd (submit_urls s1 urls R d cb)))
      = rounds_of (map erase_messages (snd (submit_urls s2 urls R d cb)))"
    by simp
  then have r: "rounds_of (snd (submit_urls s1 urls R d cb))
      = rounds_of (snd (submit_urls s2 urls R d cb))"
    unfolding rounds_of_erase .
  from m r show ?thesis by simp
qed

lemma flaky_403_run:
  "submit_urls flaky_service_403 [''a'', ''b'', ''c''] 3 () True
     = (Inr [(''a'', True, None, 1), (''b'', True, None, 2),
             (''c'', False, Some (prefix_400 @ ''bad''), 3)],
        [Batch 1 [''a'', ''b'', ''c'']
           [(''a'', True, None), (''b'', False, Some ''HttpError 403''),
            (''c'', False, Some ''HttpError 403'')],
         Callback ''a'' True None 1, Sleep (),
         Batch 2 [''b'', ''c''] [(''b'', True, None), (''c'', False, Some (prefix_400 @ ''bad''))],
         Callback ''b'' True None 2, Sleep (),
         Batch 3 [''c''] [(''c'', False, Some (prefix_400 @ ''bad''))],
         Callback ''c'' False (Some (prefix_400 @ ''bad'')) 3])"
  by code_simp

lemma flaky_services_agree:
  "(flaky_service k us u = None) = (flaky_service_403 k us u = None)"
  by (simp add: flaky_service_def flaky_service_403_def)

theorem submit_urls_messages_irrelevant_witness:
  "rounds_of (snd (submit_urls flaky_service [''a'', ''b'', ''c''] 3 () True))
     = [(1, [''a'', ''b'', ''c'']), (2, [''b'', ''c'']), (3, [''c''])]
   \<and> rounds_of (snd (submit_urls flaky_service_403 [''a'', ''b'', ''c''] 3 () True))
     = [(1, [''a'', ''b'', ''c'']), (2, [''b'', ''c'']), (3, [''c''])]
   \<and> map_sum id verdicts (fst (submit_urls flaky_service_403 [''a'', ''b'', ''c''] 3 () True))
     = Inr [(''a'', True, 1), (''b'', True, 2), (''c'', False, 3)]
   \<and> map_sum id verdicts (fst (submit_urls flaky_service [''a'', ''b'', ''c''] 3 () True))
     = Inr [(''a'', True, 1), (''b'', True, 2), (''c'', False, 3)]
   \<and> fst (submit_urls flaky_service [''a'', ''b'', ''c''] 3 () True)
     \<noteq> fst (submit_urls flaky_service_403 [''a'', ''b'', ''c''] 3 () True)"
proof -
  have h: "\<forall>k us res.
      Batch k us res \<in> set (snd (submit_urls flaky_service [''a'', ''b'', ''c''] 3 () True))
      \<longrightarrow> (\<forall>u \<in> set us. (flaky_service k us u = None) = (flaky_service_403 k us u = None))"
    by (simp add: flaky_services_agree)
  note t = submit_urls_messages_irrelevant [OF h]
  have r2: "rounds_of (snd (submit_urls flaky_service_403 [''a'', ''b'', ''c''] 3 () True))
     = [(1, [''a'', ''b'', ''c'']), (2, [''b'', ''c'']), (3, [''c''])]"
    unfolding flaky_403_run snd_conv by (simp add: rounds_of_def List.map_filter_simps)
  from t have "rounds_of (snd (submit_urls flaky_service [''a'', ''b'', ''c''] 3 () True))
      = rounds_of (snd (submit_urls flaky_service_403 [''a'', ''b'', ''c''] 3 () True))"
    by (rule conjunct2 [THEN conjunct1])
  then have r1: "rounds_of (snd (submit_urls flaky_service [''a'', ''b'', ''c''] 3 () True))
     = [(1, [''a'', ''b'', ''c'']), (2, [''b'', ''c'']), (3, [''c''])]"
    unfolding r2 .
  have v2: "map_sum id verdicts (fst (submit_urls flaky_service_403 [''a'', ''b'', ''c''] 3 () True))
     = Inr [(''a'', True, 1), (''b'', True, 2), (''c'', False, 3)]"
    unfolding flaky_403_run fst_conv by (simp add: verdicts_def)
  from t have "map_sum id verdicts (fst (submit_urls flaky_service [''a'', ''b'', ''c''] 3 () True))
      = map_sum id verdicts (fst (submit_urls flaky_service_403 [''a'', ''b'', ''c''] 3 () True))"
    by (rule conjunct2 [THEN conjunct2])
  then have v1: "map_sum id verdicts (fst (submit_urls flaky_service [''a'', ''b'', ''c''] 3 () True))
     = Inr [(''a'', True, 1), (''b'', True, 2), (''c'', False, 3)]"
    unfolding v2 .
  have ne: "fst (submit_urls flaky_service [''a'', ''b'', ''c''] 3 () True)
     \<noteq> fst (submit_urls flaky_service_403 [''a'', ''b'', ''c''] 3 () True)"
    unfolding flaky_run flaky_403_run fst_conv by (simp add: prefix_400_def)
  from r1 r2 v2 v1 ne show ?thesis by (intro conjI)
qed












section \<open>Submission engine: exceptions\<close>


lemma add_requests_repeated:
  "\<not> distinct (added @ us) \<Longrightarrow> distinct added \<Longrightarrow> \<exists>u. add_requests added us = Inl (KeyError u)"
proof (induction us arbitrary: added)
  case Nil
  then show ?case by simp
next
  case (Cons u us)
  show ?case
  proof (cases "u \<in> set added")
    case True
    then show ?thesis by simp
  next
    case False
    with Cons.prems(2) have d: "distinct (added @ [u])" by simp
    from Cons.prems(1) have "\<not> distinct ((added @ [u]) @ us)" by simp
    from Cons.IH [OF this d] False show ?thesis by simp
  qed
qed












text \<open>A list with a repeated url ends in the first round's \<open>batch.add\<close>, before any
  request is sent and any callback is called, whatever the service does.\<close>

lemma repeated_url_raises:
  fixes d :: 'a
  assumes "urls \<noteq> []" "length urls \<le> 100" "1 \<le> R" "\<not> distinct urls"
  shows "\<exists>u. submit_urls_raising s env urls R d cb = (Inl (KeyError u), [])"
proof -
  from add_requests_repeated [of "[]" urls] assms(4)
  obtain u where "add_requests [] urls = Inl (KeyError u)" by auto
  then have "execute_batch_request_raising s env (0 + 1) urls = Inl (KeyError u)"
    by (simp add: execute_batch_request_raising_def)
  then have "submit_loop_raising s env R d cb [] urls 0 = (Inl (KeyError u), [])"
    using assms(1,3) by (subst submit_loop_raising.simps) simp
  then show ?thesis using assms(1,2) by (simp add: submit_urls_raising_def)
qed





end
